theory Spec2Isabelle
  imports Main
begin

section \<open>Python strings\<close>

text \<open>
  A Python \<open>str\<close> is a sequence of Unicode code points, and \<open>len\<close>, indexing and
  slicing count code points. A string is therefore a list of code points, each a natural
  number. Literals of the scripts are ASCII and are written through \<open>str\<close>.
\<close>

type_synonym codepoint = nat
type_synonym pystr = "codepoint list"

definition str :: "string \<Rightarrow> pystr" where
  "str s = map of_char s"

subsection \<open>Character classes of the runtime\<close>

text \<open>
  \<open>str.isspace\<close>, \<open>str.split()\<close>, \<open>str.strip()\<close> and the regular expression class
  \<open>\s\<close> (on \<open>str\<close> patterns) agree on what whitespace is: the code points below.
\<close>

definition isspace :: "codepoint \<Rightarrow> bool" where
  "isspace c = ((9 \<le> c \<and> c \<le> 13) \<or> (28 \<le> c \<and> c \<le> 32) \<or> c = 133 \<or> c = 160
      \<or> c = 5760 \<or> (8192 \<le> c \<and> c \<le> 8202) \<or> c = 8232 \<or> c = 8233 \<or> c = 8239
      \<or> c = 8287 \<or> c = 12288)"

definition comma :: codepoint where "comma = 44"
definition dot :: codepoint where "dot = 46"

text \<open>
  Matching a pattern character under \<open>re.IGNORECASE\<close>: an ASCII letter matches both of
  its cases; \<open>i\<close> also matches U+0130 and U+0131, \<open>s\<close> also U+017F and \<open>k\<close> also
  U+212A. Any other pattern character of the scripts (the space) matches itself only.
\<close>

definition ascii_lower :: "codepoint \<Rightarrow> codepoint" where
  "ascii_lower c = (if 65 \<le> c \<and> c \<le> 90 then c + 32 else c)"

definition ci_match :: "codepoint \<Rightarrow> codepoint \<Rightarrow> bool" where
  "ci_match p c =
     (let q = ascii_lower p in
        if 97 \<le> q \<and> q \<le> 122
        then c = q \<or> c + 32 = q \<or> (q = 105 \<and> (c = 304 \<or> c = 305))
               \<or> (q = 115 \<and> c = 383) \<or> (q = 107 \<and> c = 8490)
        else c = p)"

subsection \<open>String methods\<close>

text \<open>\<open>s.lstrip(chars)\<close>, \<open>s.rstrip(chars)\<close>, \<open>s.strip(chars)\<close> and \<open>s.strip()\<close>.\<close>

definition lstrip_chars :: "pystr \<Rightarrow> pystr \<Rightarrow> pystr" where
  "lstrip_chars chars s = dropWhile (\<lambda>c. c \<in> set chars) s"

definition rstrip_chars :: "pystr \<Rightarrow> pystr \<Rightarrow> pystr" where
  "rstrip_chars chars s = rev (dropWhile (\<lambda>c. c \<in> set chars) (rev s))"

definition strip_chars :: "pystr \<Rightarrow> pystr \<Rightarrow> pystr" where
  "strip_chars chars s = rstrip_chars chars (lstrip_chars chars s)"

definition strip :: "pystr \<Rightarrow> pystr" where
  "strip s = rev (dropWhile isspace (rev (dropWhile isspace s)))"

text \<open>
  \<open>s.split()\<close>: the maximal runs of non-whitespace, in order. The first argument is the
  word being read.
\<close>

fun split_acc :: "pystr \<Rightarrow> pystr \<Rightarrow> pystr list" where
  "split_acc w [] = (if w = [] then [] else [w])"
| "split_acc w (c # cs) =
     (if isspace c then (if w = [] then split_acc [] cs else w # split_acc [] cs)
      else split_acc (w @ [c]) cs)"

definition split :: "pystr \<Rightarrow> pystr list" where
  "split s = split_acc [] s"

text \<open>\<open>sep.join(words)\<close>.\<close>

fun join :: "pystr \<Rightarrow> pystr list \<Rightarrow> pystr" where
  "join sep [] = []"
| "join sep [w] = w"
| "join sep (w # v # ws) = w @ sep @ join sep (v # ws)"

text \<open>\<open>s.startswith(p)\<close>.\<close>

fun startswith :: "pystr \<Rightarrow> pystr \<Rightarrow> bool" where
  "startswith s [] = True"
| "startswith [] (p # ps) = False"
| "startswith (c # cs) (p # ps) = (c = p \<and> startswith cs ps)"

text \<open>
  \<open>s.replace(old, new)\<close> for a non-empty \<open>old\<close> (both uses in the scripts): the
  occurrences of \<open>old\<close> are replaced from left to right, without overlap.
\<close>

function replace :: "pystr \<Rightarrow> pystr \<Rightarrow> pystr \<Rightarrow> pystr" where
  "replace old new [] = []"
| "replace old new (c # cs) =
     (if old \<noteq> [] \<and> startswith (c # cs) old
      then new @ replace old new (drop (length old) (c # cs))
      else c # replace old new cs)"
  by pat_completeness auto
termination
  by (relation "measure (\<lambda>(old, new, s). length s)") (auto simp: neq_Nil_conv)

subsection \<open>Regular expressions of the scripts\<close>

text \<open>
  A matcher is tried at a position of the text and returns what follows the match there,
  or \<open>None\<close>. \<open>re.sub(pattern, repl, s)\<close> walks the text from the left: where the
  pattern matches, the match is replaced and the walk goes on behind it; elsewhere the
  character is kept. No pattern of the scripts matches the empty string, so a match
  always leaves a shorter text.
\<close>

type_synonym matcher = "pystr \<Rightarrow> pystr option"

function re_sub :: "matcher \<Rightarrow> pystr \<Rightarrow> pystr \<Rightarrow> pystr" where
  "re_sub m repl [] = []"
| "re_sub m repl (c # cs) =
     (case m (c # cs) of
        None \<Rightarrow> c # re_sub m repl cs
      | Some r \<Rightarrow> if length r \<le> length cs then repl @ re_sub m repl r
                  else c # re_sub m repl cs)"
  by pat_completeness auto
termination
  by (relation "measure (\<lambda>(m, repl, s). length s)") auto

text \<open>A literal, matched case-insensitively.\<close>

fun match_lit :: "pystr \<Rightarrow> pystr \<Rightarrow> pystr option" where
  "match_lit [] s = Some s"
| "match_lit (p # ps) [] = None"
| "match_lit (p # ps) (c # cs) = (if ci_match p c then match_lit ps cs else None)"

text \<open>
  A sequence of groups, each an alternation of literals, as in
  \<open>This (person|woman) (is|has)\<close>: the alternatives of a group are tried in order, and
  one is kept only when the groups behind it match as well.
\<close>

fun match_alts :: "pystr list \<Rightarrow> pystr list list \<Rightarrow> pystr \<Rightarrow> pystr option" where
  "match_alts [] gs s = None"
| "match_alts (a # as) gs s =
     (case match_lit a s of
        None \<Rightarrow> match_alts as gs s
      | Some r \<Rightarrow>
          (case (case gs of [] \<Rightarrow> Some r | g # gs' \<Rightarrow> match_alts g gs' r) of
             None \<Rightarrow> match_alts as gs s
           | Some r' \<Rightarrow> Some r'))"

definition match_groups :: "pystr list list \<Rightarrow> matcher" where
  "match_groups gs s = (case gs of [] \<Rightarrow> Some s | g # gs' \<Rightarrow> match_alts g gs' s)"

definition subjects :: "pystr list" where
  "subjects = [str ''person'', str ''woman'', str ''man'', str ''individual'',
               str ''girl'', str ''boy'']"

definition pat_this :: matcher where
  "pat_this = match_groups [[str ''This ''], subjects, [str '' ''], [str ''is'', str ''has'']]"

definition pat_the :: matcher where
  "pat_the = match_groups [[str ''The ''], subjects, [str '' ''], [str ''is'', str ''has'']]"

definition pat_she :: matcher where
  "pat_she = match_groups [[str ''She ''], [str ''is'', str ''has'', str ''wears'']]"

definition pat_he :: matcher where
  "pat_he = match_groups [[str ''He ''], [str ''is'', str ''has'', str ''wears'']]"

text \<open>\<open>\s+\<close>: a maximal run of whitespace.\<close>

definition pat_spaces :: matcher where
  "pat_spaces s =
     (case s of [] \<Rightarrow> None | c # cs \<Rightarrow> if isspace c then Some (dropWhile isspace cs) else None)"

text \<open>
  \<open>,\s*,+\<close>: a comma, the whitespace behind it, and then at least one comma, as many as
  there are.
\<close>

definition pat_commas :: matcher where
  "pat_commas s =
     (case s of
        [] \<Rightarrow> None
      | c # cs \<Rightarrow>
          if c = comma
          then (case dropWhile isspace cs of
                  [] \<Rightarrow> None
                | d # ds \<Rightarrow> if d = comma then Some (dropWhile (\<lambda>x. x = comma) ds) else None)
          else None)"

subsection \<open>Paths, files and the operating system\<close>

text \<open>
  A \<open>pathlib.Path\<close> of the scripts is a directory and the name of an entry in it.
  \<open>suffix\<close>, \<open>stem\<close> and \<open>with_suffix\<close> follow pathlib: with
  \<open>i = name.rfind('.')\<close>, the suffix is \<open>name[i:]\<close> when \<open>0 < i < len(name) - 1\<close>
  and empty otherwise.
\<close>

datatype path = Path (parent: pystr) (name: pystr)

fun rfind :: "codepoint \<Rightarrow> pystr \<Rightarrow> nat option" where
  "rfind x [] = None"
| "rfind x (c # cs) =
     (case rfind x cs of
        Some i \<Rightarrow> Some (Suc i)
      | None \<Rightarrow> if c = x then Some 0 else None)"

definition suffix :: "pystr \<Rightarrow> pystr" where
  "suffix nm =
     (case rfind dot nm of
        None \<Rightarrow> []
      | Some i \<Rightarrow> if 0 < i \<and> i + 1 < length nm then drop i nm else [])"

definition stem :: "pystr \<Rightarrow> pystr" where
  "stem nm =
     (case rfind dot nm of
        None \<Rightarrow> nm
      | Some i \<Rightarrow> if 0 < i \<and> i + 1 < length nm then take i nm else nm)"

definition with_suffix :: "pystr \<Rightarrow> pystr \<Rightarrow> pystr" where
  "with_suffix nm suf =
     (if suffix nm = [] then nm @ suf
      else take (length nm - length (suffix nm)) nm @ suf)"

definition endswith :: "pystr \<Rightarrow> pystr \<Rightarrow> bool" where
  "endswith s suf = (length suf \<le> length s \<and> drop (length s - length suf) s = suf)"

text \<open>
  An operation of the operating system or of a library either returns or raises. The
  exceptions are values, and what an operation does on a given file is read from the
  environment:

  \<^item> \<open>image_exists\<close>: \<open>Path.exists()\<close> on a name of the image directory. It returns a
    truth value or raises: pathlib answers \<open>False\<close> for a missing file and passes every
    other error of \<open>stat\<close> on, as \<open>OSError\<close> for a name beyond the limit of the file
    system.
  \<^item> \<open>read_as\<close>: what reading a file under an encoding gives, \<open>None\<close> when \<open>open\<close> or
    \<open>read\<close> raises.
  \<^item> \<open>can_symlink\<close>, \<open>can_copy\<close>: whether \<open>os.symlink\<close> and \<open>shutil.copy2\<close> to a free
    name of the output directory go through.
  \<^item> \<open>resolves\<close>: whether a symlink of the output directory with the given target
    resolves. The operating system reads a relative target from the directory of the
    link, not from the working directory.
  \<^item> \<open>can_copy_through\<close>: whether \<open>shutil.copy2\<close> goes through when the destination is
    a symlink with the given target that does not resolve; the copy is then written to
    the target of the link.
  \<^item> \<open>can_write\<close>: whether the writing of a text file goes through.
  \<^item> \<open>str_upper\<close>: the case mapping of the runtime.
\<close>

datatype exn = OSError | KeyError | ValueError | OtherError

definition returned :: "exn + 'a \<Rightarrow> bool" where
  "returned r = (case r of Inl x \<Rightarrow> False | Inr y \<Rightarrow> True)"

record env =
  image_exists :: "pystr \<Rightarrow> exn + bool"
  read_as :: "pystr \<Rightarrow> path \<Rightarrow> pystr option"
  can_symlink :: "path \<Rightarrow> pystr \<Rightarrow> bool"
  can_copy :: "path \<Rightarrow> pystr \<Rightarrow> bool"
  can_copy_through :: "path \<Rightarrow> bool"
  can_write :: "pystr \<Rightarrow> bool"
  resolves :: "path \<Rightarrow> bool"
  str_upper :: "codepoint \<Rightarrow> pystr"

text \<open>
  \<open>os.path.isabs\<close> on a POSIX system: a path is absolute when it begins with a slash.
\<close>

definition is_absolute :: "pystr \<Rightarrow> bool" where
  "is_absolute p = (case p of [] \<Rightarrow> False | c # cs \<Rightarrow> c = of_char CHR ''/'')"

text \<open>
  The output training directory maps the names of its entries to what they are: a
  symlink to an image, a copy of an image, or a text file with its content.
\<close>

datatype entry = Link path | Copy path | Text pystr

type_synonym dir = "pystr \<rightharpoonup> entry"

text \<open>
  \<open>dst.exists()\<close> follows a symlink: an entry of the directory exists unless it is a
  symlink that does not resolve.
\<close>

definition exists_in :: "env \<Rightarrow> dir \<Rightarrow> pystr \<Rightarrow> bool" where
  "exists_in e d nm =
     (case d nm of
        None \<Rightarrow> False
      | Some (Link src) \<Rightarrow> resolves e src
      | Some (Copy src) \<Rightarrow> True
      | Some (Text content) \<Rightarrow> True)"

text \<open>
  \<open>if not dst.exists(): try: os.symlink(src, dst) except: shutil.copy2(src, dst)\<close>:
  an existing destination is left alone. Where the name is free, the symlink is made,
  and the copy when the symlink raised. Where the name is taken by a symlink that does
  not resolve, \<open>exists()\<close> is false, \<open>os.symlink\<close> raises \<open>FileExistsError\<close>, and
  \<open>copy2\<close> writes through the link, which leaves the entry as it is, or raises. An
  exception of \<open>copy2\<close> is not caught here. \<open>dst.exists()\<close> itself is taken to return:
  the name of the destination is a name that was found in the image directory. The
  environment is the same for every step of a run: a link through which a copy was
  written is still taken not to resolve by a later step, which then copies through it
  again and leaves the same directory as the step that finds the destination.
\<close>

definition place_image :: "env \<Rightarrow> dir \<Rightarrow> path \<Rightarrow> pystr \<Rightarrow> exn + dir" where
  "place_image e d src dst =
     (if exists_in e d dst then Inr d
      else case d dst of
             None \<Rightarrow>
               if can_symlink e src dst then Inr (d(dst \<mapsto> Link src))
               else if can_copy e src dst then Inr (d(dst \<mapsto> Copy src))
               else Inl OSError
           | Some held \<Rightarrow>
               (case held of
                  Link target \<Rightarrow> if can_copy_through e target then Inr d else Inl OSError
                | Copy other \<Rightarrow> Inr d
                | Text content \<Rightarrow> Inr d))"

text \<open>\<open>with open(txt, 'w', encoding='utf-8') as f: f.write(caption)\<close>.\<close>

definition write_text :: "env \<Rightarrow> dir \<Rightarrow> pystr \<Rightarrow> pystr \<Rightarrow> exn + dir" where
  "write_text e d txt content =
     (if can_write e txt then Inr (d(txt \<mapsto> Text content)) else Inl OSError)"

text \<open>
  A record of a run is a Python dict, kept as the list of its items in insertion order.
  \<open>pd.DataFrame(records)\<close> has the keys of the records as columns, in the order of
  their first appearance, and \<open>to_csv(index=False)\<close> writes them as the header.
\<close>

type_synonym row = "(pystr \<times> pystr) list"

fun add_new :: "'a list \<Rightarrow> 'a list \<Rightarrow> 'a list" where
  "add_new seen [] = seen"
| "add_new seen (k # ks) = add_new (if k \<in> set seen then seen else seen @ [k]) ks"

definition columns :: "row list \<Rightarrow> pystr list" where
  "columns records = add_new [] (concat (map (map fst) records))"

section \<open>clean\_and\_prepare\_captions.py\<close>

definition MAX_CAPTION_WORDS :: nat where
  "MAX_CAPTION_WORDS = 30"

text \<open>
  \<open>caption[0].upper()\<close> reads the case mapping of the runtime's Unicode database, which
  maps one code point to one or more code points. The mapping is the parameter
  \<open>upper\<close> of the model; \<open>ascii_upper\<close> is its restriction to ASCII.
\<close>

definition ascii_upper :: "codepoint \<Rightarrow> pystr" where
  "ascii_upper c = (if 97 \<le> c \<and> c \<le> 122 then [c - 32] else [c])"

definition capitalize_first :: "(codepoint \<Rightarrow> pystr) \<Rightarrow> pystr \<Rightarrow> pystr" where
  "capitalize_first upper caption =
     (case caption of [] \<Rightarrow> [] | c # cs \<Rightarrow> upper c @ cs)"

text \<open>The caption as it stands before the step "Ensure starts with capital".\<close>

definition caption_body :: "pystr \<Rightarrow> pystr" where
  "caption_body caption =
     (let caption = re_sub pat_this [] caption;
          caption = re_sub pat_the [] caption;
          caption = re_sub pat_she [] caption;
          caption = re_sub pat_he [] caption;
          caption = replace (str ''. '') (str '', '') caption;
          caption = replace (str ''..'') (str ''.'') caption;
          caption = re_sub pat_spaces (str '' '') caption;
          caption = re_sub pat_commas (str '','') caption;
          caption = strip_chars (str '' .,'') caption;
          words = split caption
      in if length words > MAX_CAPTION_WORDS
         then join (str '' '') (take MAX_CAPTION_WORDS words)
         else caption)"

definition cpc_clean_caption :: "(codepoint \<Rightarrow> pystr) \<Rightarrow> pystr \<Rightarrow> pystr" where
  "cpc_clean_caption upper caption =
     (let caption = caption_body caption;
          caption = capitalize_first upper caption
      in strip (rstrip_chars (str '','') caption) @ str ''.'')"

text \<open>
  The first loop of \<open>main\<close>: for each caption file the image is looked up under the
  extensions in order; the caption is read as UTF-8, stripped, refused when shorter than
  5 characters, cleaned and recorded. The extension loop with its \<open>exists()\<close> stands
  before the \<open>try\<close>: an exception of \<open>exists()\<close> is not handled and ends the run. The
  reading and the cleaning stand inside the \<open>try\<close>, whose handler counts the file as
  skipped and goes on. Each way out of the loop body that goes on increments one
  counter.
\<close>

definition image_extensions :: "pystr list" where
  "image_extensions = [str ''.jpg'', str ''.jpeg'', str ''.png'', str ''.JPG'', str ''.JPEG'',
                       str ''.PNG'']"

fun first_existing :: "(pystr \<Rightarrow> exn + bool) \<Rightarrow> pystr \<Rightarrow> pystr list \<Rightarrow> exn + pystr option" where
  "first_existing ex image_name [] = Inr None"
| "first_existing ex image_name (ext # exts) =
     (case ex (image_name @ ext) of
        Inl x \<Rightarrow> Inl x
      | Inr found \<Rightarrow>
          if found then Inr (Some (image_name @ ext))
          else first_existing ex image_name exts)"

record cpc_state =
  results :: "row list"
  matched_count :: nat
  skipped_count :: nat

definition cpc_init :: cpc_state where
  "cpc_init = \<lparr>results = [], matched_count = 0, skipped_count = 0\<rparr>"

definition cpc_step :: "env \<Rightarrow> cpc_state \<Rightarrow> path \<Rightarrow> exn + cpc_state" where
  "cpc_step e st caption_file =
     (let image_name = stem (name caption_file) in
      case first_existing (image_exists e) image_name image_extensions of
        Inl x \<Rightarrow> Inl x
      | Inr None \<Rightarrow> Inr (st\<lparr>skipped_count := skipped_count st + 1\<rparr>)
      | Inr (Some image_filename) \<Rightarrow>
          (case read_as e (str ''utf-8'') caption_file of
             None \<Rightarrow> Inr (st\<lparr>skipped_count := skipped_count st + 1\<rparr>)
           | Some content \<Rightarrow>
               (let original_caption = strip content in
                if length original_caption < 5
                then Inr (st\<lparr>skipped_count := skipped_count st + 1\<rparr>)
                else Inr (st\<lparr>results := results st @
                         [[(str ''image_id'', image_filename),
                           (str ''original_caption'', original_caption),
                           (str ''cleaned_caption'',
                              cpc_clean_caption (str_upper e) original_caption)]],
                       matched_count := matched_count st + 1\<rparr>))))"

fun cpc_loop :: "env \<Rightarrow> cpc_state \<Rightarrow> path list \<Rightarrow> exn + cpc_state" where
  "cpc_loop e st [] = Inr st"
| "cpc_loop e st (caption_file # caption_files) =
     (case cpc_step e st caption_file of
        Inl x \<Rightarrow> Inl x
      | Inr st' \<Rightarrow> cpc_loop e st' caption_files)"

definition cpc_read_loop :: "env \<Rightarrow> path list \<Rightarrow> exn + cpc_state" where
  "cpc_read_loop e caption_files = cpc_loop e cpc_init caption_files"

text \<open>
  What \<open>main\<close> prints behind the loop: the matched count, and the skipped count when
  it is positive.
\<close>

definition cpc_report :: "cpc_state \<Rightarrow> (pystr \<times> nat) list" where
  "cpc_report st =
     (str ''Matched'', matched_count st) #
     (if skipped_count st > 0 then [(str ''Skipped'', skipped_count st)] else [])"

text \<open>
  The CSV is written only when the loop came to its end and a pair was matched; its
  header is the columns of the frame.
\<close>

definition cpc_csv_header :: "exn + cpc_state \<Rightarrow> pystr list option" where
  "cpc_csv_header run =
     (case run of
        Inl x \<Rightarrow> None
      | Inr st \<Rightarrow> if matched_count st = 0 then None else Some (columns (results st)))"

text \<open>
  The second loop, over the rows of the frame: the source image is looked up under the
  part of \<open>image_id\<close> before its first dot, and under \<open>image_id\<close> itself when none is
  found. Nothing in this loop is inside a \<open>try\<close> whose handler goes on, except the
  symlink: an exception of \<open>exists()\<close>, of the copy or of the writing ends the run.
\<close>

record copy_state =
  out :: dir
  saved_count :: nat

definition lookup :: "row \<Rightarrow> pystr \<Rightarrow> exn + pystr" where
  "lookup r k = (case map_of r k of None \<Rightarrow> Inl KeyError | Some v \<Rightarrow> Inr v)"

definition IMAGE_DIR :: pystr where
  "IMAGE_DIR = str ''../data/images''"

definition src_image :: "env \<Rightarrow> pystr \<Rightarrow> exn + pystr" where
  "src_image e image_id =
     (case first_existing (image_exists e) (takeWhile (\<lambda>c. c \<noteq> dot) image_id)
             image_extensions of
        Inl x \<Rightarrow> Inl x
      | Inr (Some found) \<Rightarrow> Inr found
      | Inr None \<Rightarrow> Inr image_id)"

definition cpc_copy_row :: "env \<Rightarrow> copy_state \<Rightarrow> row \<Rightarrow> exn + copy_state" where
  "cpc_copy_row e st r =
     (case lookup r (str ''image_id'') of
        Inl x \<Rightarrow> Inl x
      | Inr image_id \<Rightarrow>
     (case lookup r (str ''cleaned_caption'') of
        Inl x \<Rightarrow> Inl x
      | Inr caption \<Rightarrow>
     (case src_image e image_id of
        Inl x \<Rightarrow> Inl x
      | Inr src \<Rightarrow>
     (case image_exists e src of
        Inl x \<Rightarrow> Inl x
      | Inr present \<Rightarrow>
          if present
          then (case place_image e (out st) (Path IMAGE_DIR src) image_id of
                  Inl x \<Rightarrow> Inl x
                | Inr d \<Rightarrow>
                    (case write_text e d (with_suffix image_id (str ''.txt'')) caption of
                       Inl x \<Rightarrow> Inl x
                     | Inr d' \<Rightarrow> Inr \<lparr>out = d', saved_count = saved_count st + 1\<rparr>))
          else Inr st))))"

fun cpc_copy_loop :: "env \<Rightarrow> copy_state \<Rightarrow> row list \<Rightarrow> exn + copy_state" where
  "cpc_copy_loop e st [] = Inr st"
| "cpc_copy_loop e st (r # rs) =
     (case cpc_copy_row e st r of
        Inl x \<Rightarrow> Inl x
      | Inr st' \<Rightarrow> cpc_copy_loop e st' rs)"

section \<open>process\_all\_captions.py\<close>

text \<open>
  \<open>clean_caption(text)\<close> of this script: the empty text is returned as it is, otherwise
  the text is stripped, its whitespace runs become single spaces, it is cut to 300
  characters and stripped again.
\<close>

definition pac_clean_caption :: "pystr \<Rightarrow> pystr" where
  "pac_clean_caption text =
     (if text = [] then []
      else let text = re_sub pat_spaces (str '' '') (strip text);
               text = (if length text > 300 then take 300 text else text)
           in strip text)"

text \<open>
  \<open>find_image_files\<close>: the entries of the image directory that match \<open>*.jpg\<close>,
  then those that match \<open>*.jpeg\<close>, and so on; a missing directory gives no image.
\<close>

definition image_globs :: "pystr list" where
  "image_globs = [str ''.jpg'', str ''.jpeg'', str ''.png'', str ''.JPG'', str ''.PNG'',
                  str ''.JPEG'']"

definition find_image_files :: "path list option \<Rightarrow> path list" where
  "find_image_files listing =
     (case listing of
        None \<Rightarrow> []
      | Some entries \<Rightarrow>
          concat (map (\<lambda>ext. filter (\<lambda>p. endswith (name p) ext) entries) image_globs))"

text \<open>
  \<open>match_images_captions\<close>: for each caption file, the first image of the list with
  the caption's stem; the inner loop stops there.
\<close>

fun first_image :: "pystr \<Rightarrow> path list \<Rightarrow> path option" where
  "first_image cap_stem [] = None"
| "first_image cap_stem (img_file # images) =
     (if stem (name img_file) = cap_stem then Some img_file
      else first_image cap_stem images)"

fun match_images_captions :: "path list \<Rightarrow> path list \<Rightarrow> (path \<times> path) list" where
  "match_images_captions [] images = []"
| "match_images_captions (cap_file # captions) images =
     (case first_image (stem (name cap_file)) images of
        None \<Rightarrow> match_images_captions captions images
      | Some img_file \<Rightarrow> (img_file, cap_file) # match_images_captions captions images)"

text \<open>
  \<open>read_caption_file\<close>: the encodings are tried in order until one reads the file;
  every exception is swallowed. \<open>try_encodings\<close> also returns the encodings it tried.
\<close>

definition encodings :: "pystr list" where
  "encodings = [str ''utf-8'', str ''utf-8-sig'', str ''latin-1'', str ''cp1252'',
                str ''iso-8859-1'']"

fun try_encodings :: "(pystr \<Rightarrow> pystr option) \<Rightarrow> pystr list \<Rightarrow> pystr list \<times> pystr option" where
  "try_encodings rd [] = ([], None)"
| "try_encodings rd (enc # encs) =
     (case rd enc of
        Some content \<Rightarrow> ([enc], Some content)
      | None \<Rightarrow> (enc # fst (try_encodings rd encs), snd (try_encodings rd encs)))"

definition read_caption_file :: "env \<Rightarrow> path \<Rightarrow> pystr option" where
  "read_caption_file e filepath = snd (try_encodings (\<lambda>enc. read_as e enc filepath) encodings)"

definition read_attempts :: "env \<Rightarrow> path \<Rightarrow> pystr list" where
  "read_attempts e filepath = fst (try_encodings (\<lambda>enc. read_as e enc filepath) encodings)"

text \<open>
  The processing loop of \<open>main\<close>. The body is one \<open>try\<close> with the handler
  \<open>except Exception: failed += 1\<close>, so each exception of the body is a branch that
  counts a failure and goes on; what was done before the exception stays done.
\<close>

record pac_state =
  pac_results :: "row list"
  success :: nat
  failed :: nat
  pac_out :: dir

definition pac_init :: "dir \<Rightarrow> pac_state" where
  "pac_init d = \<lparr>pac_results = [], success = 0, failed = 0, pac_out = d\<rparr>"

definition process_pair :: "env \<Rightarrow> pac_state \<Rightarrow> path \<times> path \<Rightarrow> pac_state" where
  "process_pair e st pair =
     (case pair of (img_file, cap_file) \<Rightarrow>
      (case read_caption_file e cap_file of
         None \<Rightarrow> st\<lparr>failed := failed st + 1\<rparr>
       | Some raw \<Rightarrow>
           if raw = [] then st\<lparr>failed := failed st + 1\<rparr>
           else
             (let caption_text = pac_clean_caption raw;
                  dst_img = name img_file
              in case place_image e (pac_out st) img_file dst_img of
                   Inl x \<Rightarrow> st\<lparr>failed := failed st + 1\<rparr>
                 | Inr d \<Rightarrow>
                     (case write_text e d (with_suffix dst_img (str ''.txt'')) caption_text of
                        Inl x \<Rightarrow> st\<lparr>failed := failed st + 1, pac_out := d\<rparr>
                      | Inr d' \<Rightarrow>
                          st\<lparr>pac_results := pac_results st @
                                 [[(str ''image_id'', name img_file),
                                   (str ''caption'', caption_text)]],
                             success := success st + 1,
                             pac_out := d'\<rparr>))))"

definition pac_loop :: "env \<Rightarrow> pac_state \<Rightarrow> (path \<times> path) list \<Rightarrow> pac_state" where
  "pac_loop e st matches = foldl (process_pair e) st matches"

definition pac_report :: "pac_state \<Rightarrow> (pystr \<times> nat) list" where
  "pac_report st =
     [(str ''Successfully processed'', success st), (str ''Failed'', failed st),
      (str ''Total'', length (pac_results st))]"


section \<open>caption\_generator\_finetuned.py\<close>

text \<open>
  \<open>make_criminal_style_caption(base_caption, attributes)\<close>: \<open>attributes\<close> is the list of
  attribute names whose flag is 1; every test is a list membership \<open>name in attributes\<close>.
\<close>

definition gender_of :: "pystr list \<Rightarrow> pystr" where
  "gender_of attributes =
     (if str ''Male'' \<in> set attributes then str ''male'' else str ''female'')"

definition emotion_of :: "pystr list \<Rightarrow> pystr" where
  "emotion_of attributes =
     (let emotion = str ''neutral expression'';
          emotion = (if str ''Smiling'' \<in> set attributes
                     then str ''smiling expression'' else emotion);
          emotion = (if str ''Angry'' \<in> set attributes then str ''angry look'' else emotion);
          emotion = (if str ''Sad'' \<in> set attributes then str ''sad face'' else emotion);
          emotion = (if str ''Surprised'' \<in> set attributes
                     then str ''surprised expression'' else emotion)
      in emotion)"

definition hair_of :: "pystr list \<Rightarrow> pystr" where
  "hair_of attributes =
     (if str ''Bald'' \<in> set attributes then str ''bald head''
      else if str ''Black_Hair'' \<in> set attributes then str ''black hair''
      else if str ''Blond_Hair'' \<in> set attributes then str ''blond hair''
      else if str ''Brown_Hair'' \<in> set attributes then str ''brown hair''
      else if str ''Gray_Hair'' \<in> set attributes then str ''gray hair''
      else str ''short hair'')"

definition beard_of :: "pystr list \<Rightarrow> pystr" where
  "beard_of attributes =
     (if str ''Beard'' \<in> set attributes \<or> str ''Goatee'' \<in> set attributes
      then str ''with facial hair'' else str ''no beard'')"

definition make_criminal_style_caption :: "pystr \<Rightarrow> pystr list \<Rightarrow> pystr" where
  "make_criminal_style_caption base_caption attributes =
     str ''A '' @ gender_of attributes @ str '' suspect with '' @ hair_of attributes
       @ str '', '' @ beard_of attributes @ str '', and a '' @ emotion_of attributes
       @ str ''.''"








section \<open>The calls of a step\<close>




















section \<open>Example runs\<close>

text \<open>
  A small world on which the functions are evaluated. The image directory is
  \<open>../data/images\<close>, as in the scripts, and holds \<open>a.jpg\<close> and \<open>a.png\<close>; \<open>a.txt\<close>
  reads under every encoding, in the directory \<open>sub\<close> with another caption; \<open>c.txt\<close>
  holds a byte that is not UTF-8 and reads as Latin-1 only; no other file can be read.
  Symlinks to a free name, copies and writes go through. The file system is a POSIX
  one: a symlink resolves when its target is absolute, the output directory
  \<open>../data/processed/train\<close> having no \<open>../data/images\<close> of its own, and a copy through
  a symlink that does not resolve goes through when the target is absolute, the
  directory of a relative target not existing.
\<close>

definition env0 :: env where
  "env0 = \<lparr>image_exists = (\<lambda>nm. Inr (nm = str ''a.jpg'' \<or> nm = str ''a.png'')),
           read_as = (\<lambda>enc p.
              if name p = str ''a.txt''
              then (if parent p = str ''sub'' then Some (str ''He has a hat'')
                    else Some (str ''She is young''))
              else if name p = str ''c.txt'' \<and> enc = str ''latin-1''
              then Some (str ''Caf'' @ [233])
              else None),
           can_symlink = (\<lambda>src dst. True),
           can_copy = (\<lambda>src dst. True),
           can_copy_through = (\<lambda>target. is_absolute (parent target)),
           can_write = (\<lambda>txt. True),
           resolves = (\<lambda>target. is_absolute (parent target)),
           str_upper = ascii_upper\<rparr>"

definition a_jpg :: path where "a_jpg = Path IMAGE_DIR (str ''a.jpg'')"
definition a_png :: path where "a_png = Path IMAGE_DIR (str ''a.png'')"
definition b_jpg :: path where "b_jpg = Path IMAGE_DIR (str ''b.jpg'')"
definition a_txt :: path where "a_txt = Path (str ''text'') (str ''a.txt'')"
definition b_txt :: path where "b_txt = Path (str ''text'') (str ''b.txt'')"
definition c_txt :: path where "c_txt = Path (str ''text'') (str ''c.txt'')"
definition sub_a_txt :: path where "sub_a_txt = Path (str ''sub'') (str ''a.txt'')"

text \<open>The state of the copying loop at its start, with an empty output directory.\<close>

definition copy0 :: copy_state where
  "copy0 = \<lparr>out = Map.empty, saved_count = 0\<rparr>"

text \<open>
  A second world: the image directory holds \<open>x.jpg\<close> and \<open>x.y.jpg\<close>, and the
  caption file \<open>x.y.txt\<close> describes the latter.
\<close>

definition env1 :: env where
  "env1 = \<lparr>image_exists = (\<lambda>nm. Inr (nm = str ''x.jpg'' \<or> nm = str ''x.y.jpg'')),
           read_as = (\<lambda>enc p. if name p = str ''x.y.txt'' then Some (str ''A smiling man'')
                               else None),
           can_symlink = (\<lambda>src dst. True),
           can_copy = (\<lambda>src dst. True),
           can_copy_through = (\<lambda>target. is_absolute (parent target)),
           can_write = (\<lambda>txt. True),
           resolves = (\<lambda>target. is_absolute (parent target)),
           str_upper = ascii_upper\<rparr>"

definition xy_txt :: path where "xy_txt = Path (str ''text'') (str ''x.y.txt'')"

definition row_xy :: row where
  "row_xy = [(str ''image_id'', str ''x.y.jpg''), (str ''original_caption'', str ''A smiling man''),
             (str ''cleaned_caption'', str ''A smiling man.'')]"

text \<open>
  A third world: the first one on a file system whose names have at most 255
  characters, where \<open>exists()\<close> raises \<open>OSError\<close> for a longer name. The caption file
  \<open>long_txt\<close> has a stem of 251 characters, so that its name has 255.
\<close>

definition env_long :: env where
  "env_long = env0\<lparr>image_exists :=
      (\<lambda>nm. if 255 < length nm then Inl OSError else image_exists env0 nm)\<rparr>"

definition long_txt :: path where
  "long_txt = Path (str ''text'') (replicate 251 (of_char CHR ''a'') @ str ''.txt'')"



section \<open>Vocabulary of the properties\<close>

text \<open>
  The number of words of a string is the length of \<open>s.split()\<close>. \<open>count_words\<close>
  counts the same words in one pass; its flag says whether the walk is inside a word.
\<close>

fun count_words :: "bool \<Rightarrow> pystr \<Rightarrow> nat" where
  "count_words inword [] = 0"
| "count_words inword (c # cs) =
     (if isspace c then count_words False cs
      else (if inword then 0 else 1) + count_words True cs)"

definition word_count :: "pystr \<Rightarrow> nat" where
  "word_count s = length (split s)"

text \<open>
  What the properties need of the case mapping: a character that is not whitespace has
  an upper case free of whitespace. Python's mapping has this property, and so has its
  ASCII restriction.
\<close>

definition spacefree :: "pystr \<Rightarrow> bool" where
  "spacefree s = list_all (\<lambda>d. \<not> isspace d) s"

definition upper_ok :: "(codepoint \<Rightarrow> pystr) \<Rightarrow> bool" where
  "upper_ok upper = (\<forall>c. \<not> isspace c \<longrightarrow> spacefree (upper c))"


section \<open>Words of a string\<close>

lemma length_split_acc:
  "length (split_acc w s) = (if w = [] then count_words False s else Suc (count_words True s))"
  by (induction w s rule: split_acc.induct) auto

lemma word_count_eq: "word_count s = count_words False s"
  by (simp add: word_count_def split_def length_split_acc)

lemma count_words_flag: "count_words True s \<le> count_words False s \<and> count_words False s \<le> Suc (count_words True s)"
  by (cases s) auto

lemma count_words_append_le: "count_words b xs \<le> count_words b (xs @ ys)"
  by (induction xs arbitrary: b) auto

lemma count_words_spacefree_prefix:
  "u \<noteq> [] \<Longrightarrow> spacefree u \<Longrightarrow>
     count_words b (u @ r) = (if b then 0 else 1) + count_words True r"
proof (induction u arbitrary: b)
  case Nil
  then show ?case by simp
next
  case (Cons d u)
  show ?case
  proof (cases "u = []")
    case True
    with Cons.prems show ?thesis by (simp add: spacefree_def)
  next
    case False
    with Cons show ?thesis by (simp add: spacefree_def)
  qed
qed

lemma count_words_dropWhile: "count_words False (dropWhile isspace s) = count_words False s"
  by (induction s) auto

lemma count_words_snoc:
  "s \<noteq> [] \<Longrightarrow> \<not> isspace (last s) \<Longrightarrow> \<not> isspace d \<Longrightarrow> count_words b (s @ [d]) = count_words b s"
proof (induction s arbitrary: b)
  case Nil
  then show ?case by simp
next
  case (Cons c s)
  then show ?case by (cases "s = []") auto
qed

lemma count_words_le_length: "count_words b s \<le> length s"
proof (induction s arbitrary: b)
  case Nil
  then show ?case by simp
next
  case (Cons c s)
  have "count_words True s \<le> length s" "count_words False s \<le> length s"
    using Cons.IH by blast+
  then show ?case by simp
qed

lemma split_acc_words:
  "w \<in> set (split_acc w0 s) \<Longrightarrow> spacefree w0 \<Longrightarrow> w \<noteq> [] \<and> spacefree w"
  by (induction w0 s rule: split_acc.induct) (auto simp: spacefree_def split: if_splits)

lemma split_words: "w \<in> set (split s) \<Longrightarrow> w \<noteq> [] \<and> spacefree w"
  using split_acc_words [of w "[]" s] by (simp add: split_def spacefree_def)

lemma isspace_space [simp]: "isspace 32"
  by (simp add: isspace_def)

lemma count_words_join:
  "(\<And>w. w \<in> set ws \<Longrightarrow> w \<noteq> [] \<and> spacefree w) \<Longrightarrow>
     count_words False (join [32] ws) = length ws"
proof (induction "[32::nat]" ws rule: join.induct)
  case 1
  then show ?case by simp
next
  case (2 w)
  then have "w \<noteq> []" "spacefree w" by auto
  then show ?case
    using count_words_spacefree_prefix [of w False "[]"] by simp
next
  case (3 w v ws)
  then have w: "w \<noteq> []" "spacefree w" by auto
  have "count_words False (join [32] (v # ws)) = length (v # ws)"
    using 3 by simp
  then show ?case
    using count_words_spacefree_prefix [OF w, of False "[32] @ join [32] (v # ws)"]
    by simp
qed

lemma hd_join:
  "ws \<noteq> [] \<Longrightarrow> hd ws \<noteq> [] \<Longrightarrow> hd (join sep ws) = hd (hd ws)"
  by (induction sep ws rule: join.induct) auto


lemma re_sub_set:
  "(\<And>s r. m s = Some r \<Longrightarrow> set r \<subseteq> set s) \<Longrightarrow>
     set (re_sub m repl s) \<subseteq> set repl \<union> set s"
proof (induction m repl s rule: re_sub.induct)
  case (1 m repl)
  then show ?case by simp
next
  case (2 m repl c cs)
  show ?case
  proof (cases "m (c # cs)")
    case None
    with 2 show ?thesis by auto
  next
    case (Some r)
    then have r: "set r \<subseteq> set (c # cs)" using "2.prems" by blast
    show ?thesis
    proof (cases "length r \<le> length cs")
      case True
      then have "set (re_sub m repl r) \<subseteq> set repl \<union> set r"
        using "2.IH"(2) [OF Some True] "2.prems" by blast
      with Some True r show ?thesis by auto
    next
      case False
      then have "set (re_sub m repl cs) \<subseteq> set repl \<union> set cs"
        using "2.IH"(3) [OF Some False] "2.prems" by blast
      with Some False show ?thesis by auto
    qed
  qed
qed

lemma re_sub_spaces_normal:
  "x \<in> set (re_sub pat_spaces [32] s) \<Longrightarrow> isspace x \<Longrightarrow> x = 32"
proof (induction pat_spaces "[32::nat]" s rule: re_sub.induct)
  case 1
  then show ?case by simp
next
  case (2 c cs)
  show ?case
  proof (cases "isspace c")
    case True
    then have m: "pat_spaces (c # cs) = Some (dropWhile isspace cs)"
      by (simp add: pat_spaces_def)
    have "length (dropWhile isspace cs) \<le> length cs"
      by (rule length_dropWhile_le)
    with m 2 show ?thesis by auto
  next
    case False
    then have "pat_spaces (c # cs) = None"
      by (simp add: pat_spaces_def)
    with False 2 show ?thesis by auto
  qed
qed

lemma pat_commas_rest: "pat_commas s = Some r \<Longrightarrow> set r \<subseteq> set s"
proof -
  assume a: "pat_commas s = Some r"
  then obtain c cs where s: "s = c # cs" by (cases s) (auto simp: pat_commas_def)
  with a obtain d ds where d: "dropWhile isspace cs = d # ds" "r = dropWhile (\<lambda>x. x = comma) ds"
    by (auto simp: pat_commas_def split: if_splits list.splits)
  have "set ds \<subseteq> set cs"
    using set_dropWhileD [of _ isspace cs] d(1) by auto
  moreover have "set r \<subseteq> set ds"
    using set_dropWhileD [of _ "\<lambda>x. x = comma" ds] d(2) by auto
  ultimately show ?thesis using s by auto
qed

lemma rstrip_chars_prefix: "rstrip_chars chars s @ rev (takeWhile (\<lambda>c. c \<in> set chars) (rev s)) = s"
proof -
  have "rev (takeWhile (\<lambda>c. c \<in> set chars) (rev s) @ dropWhile (\<lambda>c. c \<in> set chars) (rev s)) = s"
    by simp
  then show ?thesis by (simp add: rstrip_chars_def del: takeWhile_dropWhile_id)
qed

lemma rstrip_spaces_prefix: "rev (dropWhile isspace (rev s)) @ rev (takeWhile isspace (rev s)) = s"
proof -
  have "rev (takeWhile isspace (rev s) @ dropWhile isspace (rev s)) = s"
    by simp
  then show ?thesis by (simp del: takeWhile_dropWhile_id)
qed

lemma count_words_rstrip_chars: "count_words b (rstrip_chars chars s) \<le> count_words b s"
  using count_words_append_le [of b "rstrip_chars chars s" "rev (takeWhile (\<lambda>c. c \<in> set chars) (rev s))"]
  by (simp add: rstrip_chars_prefix)

lemma count_words_strip: "count_words False (strip s) \<le> count_words False s"
proof -
  let ?t = "dropWhile isspace s"
  have "count_words False (strip s) \<le> count_words False ?t"
    using count_words_append_le [of False "rev (dropWhile isspace (rev ?t))" "rev (takeWhile isspace (rev ?t))"]
    by (simp add: rstrip_spaces_prefix strip_def)
  then show ?thesis by (simp add: count_words_dropWhile)
qed

lemma strip_last: "strip s \<noteq> [] \<Longrightarrow> \<not> isspace (last (strip s))"
proof -
  assume a: "strip s \<noteq> []"
  let ?u = "dropWhile isspace (rev (dropWhile isspace s))"
  from a have "?u \<noteq> []" by (simp add: strip_def)
  then have "\<not> isspace (hd ?u)" by (rule hd_dropWhile)
  moreover have "last (strip s) = hd ?u"
    using \<open>?u \<noteq> []\<close> by (simp add: strip_def last_rev)
  ultimately show ?thesis by simp
qed

lemma strip_chars_hd: "strip_chars chars s = x # xs \<Longrightarrow> x \<notin> set chars \<and> x \<in> set s"
proof -
  assume a: "strip_chars chars s = x # xs"
  let ?t = "lstrip_chars chars s"
  have "(x # xs) @ rev (takeWhile (\<lambda>c. c \<in> set chars) (rev ?t)) = ?t"
    using rstrip_chars_prefix [of chars ?t] a by (simp add: strip_chars_def)
  then obtain ys where t: "?t = x # ys" by (metis append_Cons)
  then have "dropWhile (\<lambda>c. c \<in> set chars) s \<noteq> []" by (simp add: lstrip_chars_def)
  then have "\<not> (hd (dropWhile (\<lambda>c. c \<in> set chars) s) \<in> set chars)" by (rule hd_dropWhile)
  moreover have "x \<in> set s"
    using t set_dropWhileD [of x "\<lambda>c. c \<in> set chars" s] by (simp add: lstrip_chars_def)
  ultimately show ?thesis using t by (simp add: lstrip_chars_def)
qed


lemma str_consts: "str '' '' = [32]" "str '','' = [44]" "str ''.'' = [46]" "str '' .,'' = [32, 46, 44]"
  by (simp_all add: str_def)

lemma not_isspace_punct: "\<not> isspace 44" "\<not> isspace 46"
  by (simp_all add: isspace_def)

lemma caption_body_cases:
  obtains s where "caption_body caption = strip_chars [32, 46, 44] (re_sub pat_commas [44] (re_sub pat_spaces [32] s))"
      "length (split (caption_body caption)) \<le> MAX_CAPTION_WORDS"
    | ws where "caption_body caption = join [32] (take MAX_CAPTION_WORDS ws)"
      "MAX_CAPTION_WORDS < length ws" "\<And>w. w \<in> set ws \<Longrightarrow> w \<noteq> [] \<and> spacefree w"
proof -
  define s where "s = replace (str ''..'') (str ''.'') (replace (str ''. '') (str '', '')
      (re_sub pat_he [] (re_sub pat_she [] (re_sub pat_the [] (re_sub pat_this [] caption)))))"
  define t where "t = strip_chars [32, 46, 44] (re_sub pat_commas [44] (re_sub pat_spaces [32] s))"
  have body: "caption_body caption =
      (if MAX_CAPTION_WORDS < length (split t) then join [32] (take MAX_CAPTION_WORDS (split t)) else t)"
    by (simp add: caption_body_def Let_def s_def t_def str_consts)
  show ?thesis
  proof (cases "MAX_CAPTION_WORDS < length (split t)")
    case True
    then show ?thesis
      using that(2) [of "split t"] body split_words by simp
  next
    case False
    then show ?thesis
      using that(1) [of s] body by (simp add: t_def)
  qed
qed

lemma caption_body_hd: "caption_body caption = x # xs \<Longrightarrow> \<not> isspace x"
proof -
  assume a: "caption_body caption = x # xs"
  show ?thesis
  proof (cases caption rule: caption_body_cases)
    case (1 s)
    then have x: "x \<notin> set [32, 46, 44]" "x \<in> set (re_sub pat_commas [44] (re_sub pat_spaces [32] s))"
      using strip_chars_hd [of "[32, 46, 44]" _ x xs] a by simp_all
    have "set (re_sub pat_commas [44] (re_sub pat_spaces [32] s))
        \<subseteq> set [44] \<union> set (re_sub pat_spaces [32] s)"
      by (rule re_sub_set) (rule pat_commas_rest)
    with x have "x \<in> set (re_sub pat_spaces [32] s)" by auto
    then show ?thesis
      using re_sub_spaces_normal [of x s] x(1) by auto
  next
    case (2 ws)
    then have "ws \<noteq> []" by auto
    then have ne: "ws \<noteq> []" "hd ws \<in> set ws" by simp_all
    then have w: "hd ws \<noteq> []" "spacefree (hd ws)" using 2(3) by blast+
    have "take MAX_CAPTION_WORDS ws \<noteq> []" "hd (take MAX_CAPTION_WORDS ws) = hd ws"
      using ne by (simp_all add: MAX_CAPTION_WORDS_def)
    then have "hd (join [32] (take MAX_CAPTION_WORDS ws)) = hd (hd ws)"
      using hd_join [of "take MAX_CAPTION_WORDS ws" "[32]"] w by simp
    then have "x = hd (hd ws)" using a 2(1) by simp
    then show ?thesis using w by (cases "hd ws") (auto simp: spacefree_def)
  qed
qed

lemma caption_body_words: "count_words False (caption_body caption) \<le> MAX_CAPTION_WORDS"
proof (cases caption rule: caption_body_cases)
  case (1 s)
  then show ?thesis by (simp add: word_count_eq [unfolded word_count_def])
next
  case (2 ws)
  have "count_words False (join [32] (take MAX_CAPTION_WORDS ws)) = length (take MAX_CAPTION_WORDS ws)"
    by (rule count_words_join) (use 2(3) in \<open>auto dest: in_set_takeD\<close>)
  with 2 show ?thesis by simp
qed

lemma capitalize_first_words:
  assumes "upper_ok upper" "\<And>x xs. s = x # xs \<Longrightarrow> \<not> isspace x"
  shows "count_words False (capitalize_first upper s) \<le> count_words False s"
proof (cases s)
  case Nil
  then show ?thesis by (simp add: capitalize_first_def)
next
  case (Cons x xs)
  then have "\<not> isspace x" using assms(2) by simp
  then have sf: "spacefree (upper x)" using assms(1) by (simp add: upper_ok_def)
  show ?thesis
  proof (cases "upper x = []")
    case True
    with Cons \<open>\<not> isspace x\<close> show ?thesis
      using count_words_flag [of xs] by (simp add: capitalize_first_def)
  next
    case False
    with Cons \<open>\<not> isspace x\<close> sf show ?thesis
      using count_words_spacefree_prefix [of "upper x" False xs]
      by (simp add: capitalize_first_def)
  qed
qed

lemma finish_words:
  "count_words False (strip (rstrip_chars [44] s) @ [46]) \<le> max 1 (count_words False s)"
proof (cases "strip (rstrip_chars [44] s) = []")
  case True
  then show ?thesis by (simp add: not_isspace_punct)
next
  case False
  then have "count_words False (strip (rstrip_chars [44] s) @ [46])
      = count_words False (strip (rstrip_chars [44] s))"
    using count_words_snoc strip_last not_isspace_punct by simp
  also have "\<dots> \<le> count_words False (rstrip_chars [44] s)"
    by (rule count_words_strip)
  also have "\<dots> \<le> count_words False s"
    by (rule count_words_rstrip_chars)
  finally show ?thesis by simp
qed

lemma cpc_clean_caption_words:
  assumes "upper_ok upper"
  shows "word_count (cpc_clean_caption upper caption) \<le> MAX_CAPTION_WORDS"
proof -
  let ?c = "capitalize_first upper (caption_body caption)"
  have "count_words False ?c \<le> count_words False (caption_body caption)"
    using assms caption_body_hd by (rule capitalize_first_words)
  then have "count_words False ?c \<le> MAX_CAPTION_WORDS"
    using caption_body_words [of caption] by simp
  moreover have "word_count (cpc_clean_caption upper caption) \<le> max 1 (count_words False ?c)"
    using finish_words [of ?c] by (simp add: cpc_clean_caption_def word_count_eq str_consts)
  ultimately show ?thesis by (simp add: MAX_CAPTION_WORDS_def)
qed

lemma length_strip: "length (strip s) \<le> length s"
proof -
  have "length (strip s) \<le> length (dropWhile isspace s)"
    using length_dropWhile_le [of isspace "rev (dropWhile isspace s)"] by (simp add: strip_def)
  also have "\<dots> \<le> length s" by (rule length_dropWhile_le)
  finally show ?thesis .
qed

lemma pac_clean_caption_length: "length (pac_clean_caption text) \<le> 300"
proof -
  let ?t = "re_sub pat_spaces (str '' '') (strip text)"
  have "length (strip (if length ?t > 300 then take 300 ?t else ?t)) \<le> 300"
    using length_strip [of "if length ?t > 300 then take 300 ?t else ?t"] by auto
  then show ?thesis by (simp add: pac_clean_caption_def Let_def)
qed

lemma upper_ok_ascii: "upper_ok ascii_upper"
  by (auto simp: upper_ok_def ascii_upper_def spacefree_def isspace_def)


lemmas eval_caption = str_def cpc_clean_caption_def caption_body_def capitalize_first_def
  ascii_upper_def isspace_def ci_match_def ascii_lower_def lstrip_chars_def rstrip_chars_def
  strip_chars_def strip_def split_def pat_this_def pat_the_def pat_she_def pat_he_def
  pat_spaces_def pat_commas_def match_groups_def subjects_def MAX_CAPTION_WORDS_def comma_def
  pac_clean_caption_def word_count_def Let_def

lemmas eval_run = eval_caption env0_def a_jpg_def a_png_def b_jpg_def a_txt_def b_txt_def
  c_txt_def sub_a_txt_def cpc_read_loop_def cpc_step_def cpc_init_def stem_def suffix_def
  with_suffix_def image_extensions_def dot_def pac_loop_def pac_init_def process_pair_def
  read_caption_file_def read_attempts_def encodings_def place_image_def write_text_def
  exists_in_def is_absolute_def copy0_def cpc_copy_row_def lookup_def src_image_def env1_def
  xy_txt_def row_xy_def IMAGE_DIR_def


section \<open>The caption cleaners\<close>

text \<open>
  C1. For every caption, the cleaned caption of \<open>clean_and_prepare_captions\<close> has at
  most \<open>MAX_CAPTION_WORDS\<close> = 30 words; the cleaned caption of
  \<open>process_all_captions\<close>, whose limit is 300 characters, has at most 300 characters and
  hence at most 300 words.
\<close>

theorem clean_caption_word_limit:
  assumes "upper_ok upper"
  shows "word_count (cpc_clean_caption upper caption) \<le> MAX_CAPTION_WORDS
    \<and> length (pac_clean_caption text) \<le> 300
    \<and> word_count (pac_clean_caption text) \<le> 300"
proof -
  have "word_count (pac_clean_caption text) \<le> length (pac_clean_caption text)"
    by (simp add: word_count_eq count_words_le_length)
  then show ?thesis
    using cpc_clean_caption_words [OF assms, of caption] pac_clean_caption_length [of "text"]
    by simp
qed

theorem clean_caption_word_limit_witness:
  "upper_ok ascii_upper
   \<and> (word_count (cpc_clean_caption ascii_upper (str ''She wears a hat. She is smiling''))
         \<le> MAX_CAPTION_WORDS
      \<and> length (pac_clean_caption (str ''  a   b  '')) \<le> 300
      \<and> word_count (pac_clean_caption (str ''  a   b  '')) \<le> 300)
   \<and> cpc_clean_caption ascii_upper (str ''She wears a hat. She is smiling'')
       = str ''A hat, smiling.''
   \<and> pac_clean_caption (str ''  a   b  '') = str ''a b''"
proof -
  have h: "upper_ok ascii_upper"
    by (rule upper_ok_ascii)
  have e: "cpc_clean_caption ascii_upper (str ''She wears a hat. She is smiling'')
       = str ''A hat, smiling.''"
    by (simp add: eval_caption)
  have f: "pac_clean_caption (str ''  a   b  '') = str ''a b''"
    by (simp add: eval_caption)
  from h clean_caption_word_limit
      [OF h, of "str ''She wears a hat. She is smiling''" "str ''  a   b  ''"] e f
  show ?thesis by blast
qed

section \<open>The form of the cleaned caption\<close>

text \<open>
  What \<open>clean_caption\<close> of \<open>clean_and_prepare_captions\<close> returns is never empty and
  ends in a period; it is the period alone when nothing is left of the caption; and it
  starts with the upper case of the first character that is left.
\<close>

lemma cpc_clean_caption_ends_dot:
  "cpc_clean_caption upper caption \<noteq> [] \<and> last (cpc_clean_caption upper caption) = dot"
  by (simp add: cpc_clean_caption_def Let_def str_consts dot_def)

lemma cpc_clean_caption_empty:
  "caption_body caption = [] \<Longrightarrow> cpc_clean_caption upper caption = str ''.''"
  by (simp add: cpc_clean_caption_def Let_def capitalize_first_def rstrip_chars_def strip_def)

lemma rstrip_keeps_prefix:
  assumes "u \<noteq> []" "\<not> P (last u)"
  shows "\<exists>r. rev (dropWhile P (rev (u @ cs))) = u @ r"
proof -
  have h: "dropWhile P (rev u) = rev u"
    using assms by (cases "rev u") (auto simp: last_rev [symmetric] hd_rev)
  show ?thesis
  proof (cases "\<forall>x \<in> set (rev cs). P x")
    case True
    then have "dropWhile P (rev cs @ rev u) = dropWhile P (rev u)"
      by (simp add: dropWhile_append)
    with h show ?thesis by simp
  next
    case False
    then have "dropWhile P (rev cs @ rev u) = dropWhile P (rev cs) @ rev u"
      by (auto simp: dropWhile_append)
    then show ?thesis by simp
  qed
qed

lemma cpc_clean_caption_capitalized:
  assumes "caption_body caption = c # cs" "upper c \<noteq> []" "\<not> isspace (hd (upper c))"
    "\<not> isspace (last (upper c))" "last (upper c) \<noteq> comma"
  shows "\<exists>rest. cpc_clean_caption upper caption = upper c @ rest"
proof -
  have "\<not> (last (upper c) \<in> set [44])" using assms(5) by (simp add: comma_def)
  then obtain r1 where r1: "rstrip_chars [44] (upper c @ cs) = upper c @ r1"
    using rstrip_keeps_prefix [of "upper c" "\<lambda>x. x \<in> set [44]" cs] assms(2)
    by (auto simp: rstrip_chars_def)
  have "dropWhile isspace (upper c @ r1) = upper c @ r1"
    using assms(2,3) by (cases "upper c") simp_all
  then obtain r2 where "strip (upper c @ r1) = upper c @ r2"
    using rstrip_keeps_prefix [of "upper c" isspace r1] assms(2,4) by (auto simp: strip_def)
  with r1 assms(1) show ?thesis
    by (simp add: cpc_clean_caption_def Let_def capitalize_first_def str_consts)
qed

text \<open>
  C10. \<open>clean_caption\<close> of \<open>clean_and_prepare_captions\<close> returns a non-empty string
  ending in a single period, with the first character of a non-empty body in upper
  case, and the period alone for a caption that cleans to the empty string. The function
  strips the periods at the end of the caption and collapses \<open>..\<close> before it adds
  its own period, but it cuts the caption to 30 words after that and then strips commas
  only. A period followed by a line break is not turned into a comma, so when the 30th
  of more than 30 words ends a sentence at a line break the word keeps its period and
  the result ends in two: the caption below, of 31 words, is returned with \<open>..\<close> at
  its end.
\<close>

theorem clean_caption_double_period:
  "cpc_clean_caption ascii_upper
     (str ''a a a a a a a a a a a a a a a a a a a a a a a a a a a a a a.'' @ [10] @ str ''b'')
   = str ''A a a a a a a a a a a a a a a a a a a a a a a a a a a a a a..''"
  by (simp add: eval_caption)

section \<open>Matching images and captions\<close>


lemma first_image_None:
  "first_image s images = None \<longleftrightarrow> (\<forall>img \<in> set images. stem (name img) \<noteq> s)"
  by (induction images) auto















section \<open>The output training directory\<close>

lemma rfind_append:
  "rfind x (a @ b) = (case rfind x b of Some i \<Rightarrow> Some (length a + i) | None \<Rightarrow> rfind x a)"
  by (induction a) (auto split: option.splits)

lemma rfind_less: "rfind x s = Some i \<Longrightarrow> i < length s"
  by (induction s arbitrary: i) (auto split: option.splits if_splits)

lemma with_suffix_stem: "with_suffix nm suf = stem nm @ suf"
proof (cases "rfind dot nm")
  case None
  then show ?thesis by (simp add: with_suffix_def suffix_def stem_def)
next
  case (Some i)
  then have "i < length nm" by (rule rfind_less)
  then have "length nm - (length nm - i) = i" by simp
  with Some show ?thesis by (simp add: with_suffix_def suffix_def stem_def)
qed

lemma stem_nonempty: "nm \<noteq> [] \<Longrightarrow> stem nm \<noteq> []"
  by (cases "rfind dot nm") (auto simp: stem_def)

lemma rfind_txt: "rfind dot (str ''.txt'') = Some 0"
  by (simp add: str_def dot_def)

lemma stem_with_suffix_txt:
  assumes "nm \<noteq> []"
  shows "stem (with_suffix nm (str ''.txt'')) = stem nm"
proof -
  have s: "stem nm \<noteq> []" using assms by (rule stem_nonempty)
  have "rfind dot (stem nm @ str ''.txt'') = Some (length (stem nm))"
    by (simp add: rfind_append rfind_txt)
  moreover have "length (str ''.txt'') = 4" by (simp add: str_def)
  ultimately have "stem (stem nm @ str ''.txt'') = stem nm"
    using s by (simp add: stem_def)
  then show ?thesis by (simp add: with_suffix_stem)
qed

lemma exists_in_present: "exists_in e d nm \<Longrightarrow> d nm \<noteq> None"
  by (cases "d nm") (simp_all add: exists_in_def)

lemma place_image_Inr:
  "place_image e d src dst = Inr d' \<Longrightarrow>
     d' dst \<noteq> None \<and> (\<forall>n. d n \<noteq> None \<longrightarrow> d' n = d n)"
  using exists_in_present [of e d dst]
  by (auto simp: place_image_def split: if_splits option.splits entry.splits)

lemma place_image_exists: "exists_in e d dst \<Longrightarrow> place_image e d src dst = Inr d"
  by (simp add: place_image_def)

lemma write_text_Inr:
  "write_text e d txt content = Inr d' \<Longrightarrow> d' = d(txt \<mapsto> Text content) \<and> can_write e txt"
  by (auto simp: write_text_def split: if_splits)

lemma process_pair_success:
  assumes "success (process_pair e st (img, cap)) = success st + 1"
  shows "\<exists>raw d. read_caption_file e cap = Some raw \<and> raw \<noteq> []
      \<and> place_image e (pac_out st) img (name img) = Inr d
      \<and> can_write e (with_suffix (name img) (str ''.txt''))
      \<and> process_pair e st (img, cap) =
          st\<lparr>pac_results := pac_results st @
                 [[(str ''image_id'', name img), (str ''caption'', pac_clean_caption raw)]],
             success := success st + 1,
             pac_out := d(with_suffix (name img) (str ''.txt'') \<mapsto> Text (pac_clean_caption raw))\<rparr>"
proof (cases "read_caption_file e cap")
  case None
  with assms show ?thesis by (simp add: process_pair_def)
next
  case (Some raw)
  show ?thesis
  proof (cases "raw = []")
    case True
    with Some assms show ?thesis by (simp add: process_pair_def)
  next
    case False
    show ?thesis
    proof (cases "place_image e (pac_out st) img (name img)")
      case (Inl x)
      with Some False assms show ?thesis by (simp add: process_pair_def Let_def)
    next
      case (Inr d)
      show ?thesis
      proof (cases "can_write e (with_suffix (name img) (str ''.txt''))")
        case True
        with Some False Inr show ?thesis
          by (simp add: process_pair_def Let_def write_text_def)
      next
        case False
        with Some \<open>raw \<noteq> []\<close> Inr assms show ?thesis
          by (simp add: process_pair_def Let_def write_text_def)
      qed
    qed
  qed
qed

lemma process_pair_dom:
  "pac_out st n \<noteq> None \<Longrightarrow> pac_out (process_pair e st p) n \<noteq> None"
proof -
  assume a: "pac_out st n \<noteq> None"
  obtain img cap where p: "p = (img, cap)" by (cases p)
  show ?thesis
  proof (cases "read_caption_file e cap")
    case None
    with a p show ?thesis by (simp add: process_pair_def)
  next
    case (Some raw)
    show ?thesis
    proof (cases "place_image e (pac_out st) img (name img)")
      case (Inl x)
      with a p Some show ?thesis by (simp add: process_pair_def Let_def)
    next
      case (Inr d)
      then have "d n \<noteq> None" using place_image_Inr [OF Inr] a by simp
      with a p Some Inr show ?thesis
        by (simp add: process_pair_def Let_def write_text_def)
    qed
  qed
qed

lemma pac_foldl_dom:
  "pac_out st n \<noteq> None \<Longrightarrow> pac_out (foldl (process_pair e) st ms) n \<noteq> None"
proof (induction ms arbitrary: st)
  case Nil
  then show ?case by simp
next
  case (Cons p ms)
  then show ?case using process_pair_dom [of st n e p] by simp
qed

lemma cpc_copy_row_cases:
  assumes "cpc_copy_row e st r = Inr st'"
  shows "st' = st
     \<or> (\<exists>image_id caption src d. lookup r (str ''image_id'') = Inr image_id
          \<and> lookup r (str ''cleaned_caption'') = Inr caption
          \<and> src_image e image_id = Inr src
          \<and> image_exists e src = Inr True
          \<and> place_image e (out st) (Path IMAGE_DIR src) image_id = Inr d
          \<and> can_write e (with_suffix image_id (str ''.txt''))
          \<and> st' = \<lparr>out = d(with_suffix image_id (str ''.txt'') \<mapsto> Text caption),
                   saved_count = saved_count st + 1\<rparr>)"
proof -
  from assms obtain image_id where i: "lookup r (str ''image_id'') = Inr image_id"
    by (cases "lookup r (str ''image_id'')") (simp_all add: cpc_copy_row_def)
  from assms i obtain caption where c: "lookup r (str ''cleaned_caption'') = Inr caption"
    by (cases "lookup r (str ''cleaned_caption'')") (simp_all add: cpc_copy_row_def)
  from assms i c obtain src where s: "src_image e image_id = Inr src"
    by (cases "src_image e image_id") (simp_all add: cpc_copy_row_def)
  from assms i c s obtain present where p: "image_exists e src = Inr present"
    by (cases "image_exists e src") (simp_all add: cpc_copy_row_def)
  show ?thesis
  proof (cases present)
    case False
    with assms i c s p have "st' = st" by (simp add: cpc_copy_row_def)
    then show ?thesis ..
  next
    case True
    from assms i c s p True obtain d where
      d: "place_image e (out st) (Path IMAGE_DIR src) image_id = Inr d"
      by (cases "place_image e (out st) (Path IMAGE_DIR src) image_id")
        (simp_all add: cpc_copy_row_def)
    from assms i c s p True d obtain d' where
      w: "write_text e d (with_suffix image_id (str ''.txt'')) caption = Inr d'"
      by (cases "write_text e d (with_suffix image_id (str ''.txt'')) caption")
        (simp_all add: cpc_copy_row_def)
    have "st' = \<lparr>out = d', saved_count = saved_count st + 1\<rparr>"
      using assms i c s p True d w by (simp add: cpc_copy_row_def)
    moreover from p True have "image_exists e src = Inr True" by simp
    ultimately have "lookup r (str ''image_id'') = Inr image_id
          \<and> lookup r (str ''cleaned_caption'') = Inr caption
          \<and> src_image e image_id = Inr src
          \<and> image_exists e src = Inr True
          \<and> place_image e (out st) (Path IMAGE_DIR src) image_id = Inr d
          \<and> can_write e (with_suffix image_id (str ''.txt''))
          \<and> st' = \<lparr>out = d(with_suffix image_id (str ''.txt'') \<mapsto> Text caption),
                   saved_count = saved_count st + 1\<rparr>"
      using i c s d write_text_Inr [OF w] by simp
    then show ?thesis by blast
  qed
qed

lemma cpc_copy_row_success:
  assumes "cpc_copy_row e st r = Inr st'" "saved_count st' = saved_count st + 1"
  shows "\<exists>image_id caption src d. lookup r (str ''image_id'') = Inr image_id
      \<and> lookup r (str ''cleaned_caption'') = Inr caption
      \<and> src_image e image_id = Inr src
      \<and> image_exists e src = Inr True
      \<and> place_image e (out st) (Path IMAGE_DIR src) image_id = Inr d
      \<and> can_write e (with_suffix image_id (str ''.txt''))
      \<and> st' = \<lparr>out = d(with_suffix image_id (str ''.txt'') \<mapsto> Text caption),
               saved_count = saved_count st + 1\<rparr>"
  using cpc_copy_row_cases [OF assms(1)] assms(2) by auto

lemma cpc_copy_row_dom:
  assumes "cpc_copy_row e st r = Inr st'" "out st n \<noteq> None"
  shows "out st' n \<noteq> None"
proof -
  from cpc_copy_row_cases [OF assms(1)] show ?thesis
  proof
    assume "st' = st"
    with assms(2) show ?thesis by simp
  next
    assume "\<exists>image_id caption src d. lookup r (str ''image_id'') = Inr image_id
          \<and> lookup r (str ''cleaned_caption'') = Inr caption
          \<and> src_image e image_id = Inr src
          \<and> image_exists e src = Inr True
          \<and> place_image e (out st) (Path IMAGE_DIR src) image_id = Inr d
          \<and> can_write e (with_suffix image_id (str ''.txt''))
          \<and> st' = \<lparr>out = d(with_suffix image_id (str ''.txt'') \<mapsto> Text caption),
                   saved_count = saved_count st + 1\<rparr>"
    then obtain image_id caption src d where
      d: "place_image e (out st) (Path IMAGE_DIR src) image_id = Inr d"
        "st' = \<lparr>out = d(with_suffix image_id (str ''.txt'') \<mapsto> Text caption),
                 saved_count = saved_count st + 1\<rparr>"
      by blast
    have "d n \<noteq> None" using place_image_Inr [OF d(1)] assms(2) by simp
    with d(2) show ?thesis by simp
  qed
qed

lemma cpc_copy_loop_dom:
  "cpc_copy_loop e st rs = Inr st' \<Longrightarrow> out st n \<noteq> None \<Longrightarrow> out st' n \<noteq> None"
proof (induction rs arbitrary: st)
  case Nil
  then show ?case by simp
next
  case (Cons r rs)
  from Cons.prems(1) obtain st1 where
    s: "cpc_copy_row e st r = Inr st1" "cpc_copy_loop e st1 rs = Inr st'"
    by (cases "cpc_copy_row e st r") simp_all
  have "out st1 n \<noteq> None" using cpc_copy_row_dom [OF s(1) Cons.prems(2)] .
  then show ?case using Cons.IH [OF s(2)] by simp
qed

lemma cpc_step_cases:
  assumes "cpc_step e st f = Inr st'"
  shows "st' = st\<lparr>skipped_count := skipped_count st + 1\<rparr>
     \<or> (\<exists>image_filename content.
          first_existing (image_exists e) (stem (name f)) image_extensions
            = Inr (Some image_filename)
          \<and> read_as e (str ''utf-8'') f = Some content
          \<and> 5 \<le> length (strip content)
          \<and> st' = st\<lparr>results := results st @
                 [[(str ''image_id'', image_filename),
                   (str ''original_caption'', strip content),
                   (str ''cleaned_caption'', cpc_clean_caption (str_upper e) (strip content))]],
               matched_count := matched_count st + 1\<rparr>)"
proof (cases "first_existing (image_exists e) (stem (name f)) image_extensions")
  case (Inl x)
  with assms show ?thesis by (simp add: cpc_step_def)
next
  case (Inr found)
  show ?thesis
  proof (cases found)
    case None
    with Inr assms show ?thesis by (auto simp: cpc_step_def)
  next
    case (Some image_filename)
    show ?thesis
    proof (cases "read_as e (str ''utf-8'') f")
      case None
      with Inr Some assms show ?thesis by (auto simp: cpc_step_def)
    next
      case (Some content)
      show ?thesis
      proof (cases "length (strip content) < 5")
        case True
        with Inr \<open>found = Some image_filename\<close> Some assms show ?thesis
          by (auto simp: cpc_step_def Let_def)
      next
        case False
        with Inr \<open>found = Some image_filename\<close> Some assms show ?thesis
          by (auto simp: cpc_step_def Let_def)
      qed
    qed
  qed
qed

lemma cpc_step_row_shape:
  assumes "cpc_step e st f = Inr st'" "r \<in> set (results st')"
  shows "r \<in> set (results st)
     \<or> (\<exists>image_id original. r = [(str ''image_id'', image_id),
           (str ''original_caption'', original),
           (str ''cleaned_caption'', cpc_clean_caption (str_upper e) original)])"
  using cpc_step_cases [OF assms(1)] assms(2) by auto

lemma cpc_loop_row_shape:
  "cpc_loop e st fs = Inr st' \<Longrightarrow> r \<in> set (results st') \<Longrightarrow>
     r \<in> set (results st)
     \<or> (\<exists>image_id original. r = [(str ''image_id'', image_id),
           (str ''original_caption'', original),
           (str ''cleaned_caption'', cpc_clean_caption (str_upper e) original)])"
proof (induction fs arbitrary: st)
  case Nil
  then show ?case by simp
next
  case (Cons f fs)
  from Cons.prems(1) obtain st1 where
    s: "cpc_step e st f = Inr st1" "cpc_loop e st1 fs = Inr st'"
    by (cases "cpc_step e st f") simp_all
  from Cons.IH [OF s(2) Cons.prems(2)]
  show ?case using cpc_step_row_shape [OF s(1), of r] by blast
qed

lemma key_neq: "str ''cleaned_caption'' \<noteq> str ''image_id''"
  "str ''cleaned_caption'' \<noteq> str ''original_caption''"
  by (simp_all add: str_def)

lemma cpc_row_cleaned:
  assumes "cpc_read_loop e fs = Inr st" "r \<in> set (results st)"
  shows "\<exists>image_id original. lookup r (str ''image_id'') = Inr image_id
     \<and> lookup r (str ''cleaned_caption'') = Inr (cpc_clean_caption (str_upper e) original)"
proof -
  from assms obtain image_id original where
    "r = [(str ''image_id'', image_id), (str ''original_caption'', original),
          (str ''cleaned_caption'', cpc_clean_caption (str_upper e) original)]"
    using cpc_loop_row_shape [of e cpc_init fs st r]
    by (auto simp: cpc_read_loop_def cpc_init_def)
  then show ?thesis using key_neq by (auto simp: lookup_def)
qed

lemma pac_written:
  assumes "success (process_pair e st (img, cap)) = success st + 1"
  shows "pac_out (process_pair e st (img, cap)) (name img) \<noteq> None
     \<and> (\<exists>raw. read_caption_file e cap = Some raw
          \<and> pac_out (process_pair e st (img, cap)) (with_suffix (name img) (str ''.txt''))
              = Some (Text (pac_clean_caption raw)))"
proof -
  from process_pair_success [OF assms] obtain raw d where
    r: "read_caption_file e cap = Some raw"
      "place_image e (pac_out st) img (name img) = Inr d"
      "process_pair e st (img, cap) =
          st\<lparr>pac_results := pac_results st @
                 [[(str ''image_id'', name img), (str ''caption'', pac_clean_caption raw)]],
             success := success st + 1,
             pac_out := d(with_suffix (name img) (str ''.txt'') \<mapsto> Text (pac_clean_caption raw))\<rparr>"
    by blast
  have "d (name img) \<noteq> None" using place_image_Inr [OF r(2)] by simp
  with r(1) r(3) show ?thesis by simp
qed

lemma cpc_written:
  assumes "cpc_copy_row e cs r = Inr cs'" "saved_count cs' = saved_count cs + 1"
  shows "\<exists>image_id caption. lookup r (str ''image_id'') = Inr image_id
      \<and> lookup r (str ''cleaned_caption'') = Inr caption
      \<and> out cs' image_id \<noteq> None
      \<and> out cs' (with_suffix image_id (str ''.txt'')) = Some (Text caption)"
proof -
  from cpc_copy_row_success [OF assms] obtain image_id caption src d where
    r: "lookup r (str ''image_id'') = Inr image_id"
      "lookup r (str ''cleaned_caption'') = Inr caption"
      "place_image e (out cs) (Path IMAGE_DIR src) image_id = Inr d"
      "cs' = \<lparr>out = d(with_suffix image_id (str ''.txt'') \<mapsto> Text caption),
               saved_count = saved_count cs + 1\<rparr>"
    by blast
  have "d image_id \<noteq> None" using place_image_Inr [OF r(3)] by simp
  with r show ?thesis by simp
qed

lemma pac_duplicate:
  assumes "name img2 = name img1"
    and "with_suffix (name img1) (str ''.txt'') \<noteq> name img1"
    and "st1 = process_pair e st (img1, cap1)"
    and "success st1 = success st + 1"
    and "exists_in e (pac_out st1) (name img1)"
    and "read_caption_file e cap2 = Some raw" and "raw \<noteq> []"
    and "st2 = process_pair e st1 (img2, cap2)"
  shows "success st2 = success st1 + 1 \<and> failed st2 = failed st1
     \<and> pac_out st2 (name img1) = pac_out st1 (name img1)
     \<and> pac_out st2 (with_suffix (name img1) (str ''.txt'')) = Some (Text (pac_clean_caption raw))
     \<and> (\<forall>n. n \<noteq> with_suffix (name img1) (str ''.txt'') \<longrightarrow> pac_out st2 n = pac_out st1 n)
     \<and> pac_results st2 = pac_results st1 @
          [[(str ''image_id'', name img1), (str ''caption'', pac_clean_caption raw)]]"
proof -
  from process_pair_success [OF assms(4) [unfolded assms(3)]]
  have w: "can_write e (with_suffix (name img1) (str ''.txt''))"
    by blast
  have p: "place_image e (pac_out st1) img2 (name img2) = Inr (pac_out st1)"
    using assms(1,5) by (simp add: place_image_exists)
  have "st2 = st1\<lparr>pac_results := pac_results st1 @
                 [[(str ''image_id'', name img1), (str ''caption'', pac_clean_caption raw)]],
             success := success st1 + 1,
             pac_out := (pac_out st1)(with_suffix (name img1) (str ''.txt'')
                 \<mapsto> Text (pac_clean_caption raw))\<rparr>"
    using assms(1,6,7,8) p w by (simp add: process_pair_def Let_def write_text_def)
  then show ?thesis using assms(2) by simp
qed

lemma cpc_duplicate:
  assumes "exists_in e (out cs1) image_id"
    and "lookup r2 (str ''image_id'') = Inr image_id"
    and "lookup r2 (str ''cleaned_caption'') = Inr caption2"
    and "src_image e image_id = Inr src" and "image_exists e src = Inr True"
    and "can_write e (with_suffix image_id (str ''.txt''))"
  shows "cpc_copy_row e cs1 r2
     = Inr \<lparr>out = (out cs1)(with_suffix image_id (str ''.txt'') \<mapsto> Text caption2),
            saved_count = saved_count cs1 + 1\<rparr>"
proof -
  have p: "place_image e (out cs1) (Path IMAGE_DIR src) image_id = Inr (out cs1)"
    using assms(1) by (simp add: place_image_exists)
  show ?thesis
    using assms(2-6) p by (simp add: cpc_copy_row_def write_text_def)
qed

text \<open>
  Where the entry of the image is a symlink that does not resolve and the copy through
  it fails, \<open>process_all_captions\<close> counts the pair as failed and leaves the output
  directory as it is, and the copying loop of \<open>clean_and_prepare_captions\<close> ends with
  the exception.
\<close>

lemma place_image_dangling_link:
  assumes "d dst = Some (Link target)" "\<not> resolves e target" "\<not> can_copy_through e target"
  shows "place_image e d src dst = Inl OSError"
  using assms by (simp add: place_image_def exists_in_def)

lemma process_pair_dangling_link:
  assumes "pac_out st (name img) = Some (Link target)" "\<not> resolves e target"
    and "\<not> can_copy_through e target"
  shows "failed (process_pair e st (img, cap)) = failed st + 1
     \<and> success (process_pair e st (img, cap)) = success st
     \<and> pac_out (process_pair e st (img, cap)) = pac_out st"
proof -
  have "place_image e (pac_out st) img (name img) = Inl OSError"
    using assms by (rule place_image_dangling_link)
  then show ?thesis
    by (simp add: process_pair_def Let_def split: option.splits)
qed

lemma cpc_copy_row_dangling_link:
  assumes "lookup r (str ''image_id'') = Inr image_id"
    and "lookup r (str ''cleaned_caption'') = Inr caption"
    and "src_image e image_id = Inr src" and "image_exists e src = Inr True"
    and "out cs image_id = Some (Link target)" "\<not> resolves e target"
    and "\<not> can_copy_through e target"
  shows "cpc_copy_row e cs r = Inl OSError"
proof -
  have "place_image e (out cs) (Path IMAGE_DIR src) image_id = Inl OSError"
    using assms(5-7) by (rule place_image_dangling_link)
  with assms(1-4) show ?thesis by (simp add: cpc_copy_row_def)
qed

text \<open>
  What holds behind the step that processes a pair successfully, in both scripts: the
  output directory has an entry under the image's filename, and the file of the same
  stem with the suffix \<open>.txt\<close> holds the cleaned caption; the rows of
  \<open>clean_and_prepare_captions\<close> carry the cleaned caption of their original
  caption; and no entry of the directory disappears in the rest of the run.
\<close>

lemma training_pair_written:
  "(success (process_pair e st (img, cap)) = success st + 1 \<longrightarrow>
      pac_out (process_pair e st (img, cap)) (name img) \<noteq> None
      \<and> (\<exists>raw. read_caption_file e cap = Some raw
           \<and> pac_out (process_pair e st (img, cap)) (with_suffix (name img) (str ''.txt''))
               = Some (Text (pac_clean_caption raw))))
   \<and> (cpc_copy_row e cs r = Inr cs' \<and> saved_count cs' = saved_count cs + 1 \<longrightarrow>
        (\<exists>image_id caption. lookup r (str ''image_id'') = Inr image_id
           \<and> lookup r (str ''cleaned_caption'') = Inr caption
           \<and> out cs' image_id \<noteq> None
           \<and> out cs' (with_suffix image_id (str ''.txt'')) = Some (Text caption)))
   \<and> (cpc_read_loop e caption_files = Inr rst \<and> r \<in> set (results rst) \<longrightarrow>
        (\<exists>image_id original. lookup r (str ''image_id'') = Inr image_id
           \<and> lookup r (str ''cleaned_caption'')
               = Inr (cpc_clean_caption (str_upper e) original)))
   \<and> with_suffix nm (str ''.txt'') = stem nm @ str ''.txt''
   \<and> (nm \<noteq> [] \<longrightarrow> stem (with_suffix nm (str ''.txt'')) = stem nm)
   \<and> (pac_out st n \<noteq> None \<longrightarrow> pac_out (pac_loop e st ms) n \<noteq> None)
   \<and> (cpc_copy_loop e cs rs = Inr cs'' \<and> out cs n \<noteq> None \<longrightarrow> out cs'' n \<noteq> None)"
proof -
  have "pac_out st n \<noteq> None \<longrightarrow> pac_out (pac_loop e st ms) n \<noteq> None"
    using pac_foldl_dom [of st n e ms] by (simp add: pac_loop_def)
  moreover have "cpc_copy_loop e cs rs = Inr cs'' \<and> out cs n \<noteq> None \<longrightarrow> out cs'' n \<noteq> None"
    using cpc_copy_loop_dom [of e cs rs cs'' n] by blast
  moreover have "nm \<noteq> [] \<longrightarrow> stem (with_suffix nm (str ''.txt'')) = stem nm"
    using stem_with_suffix_txt [of nm] by blast
  ultimately show ?thesis
    using pac_written [of e st img cap] cpc_written [of e cs r cs']
      cpc_row_cleaned [of e caption_files rst r] with_suffix_stem [of nm "str ''.txt''"]
    by blast
qed

text \<open>
  Where the name was free, the entry that \<open>process_all_captions\<close> places is a symlink
  to the image of the pair or a copy of it. The entry that
  \<open>clean_and_prepare_captions\<close> places under \<open>image_id\<close> is a symlink to, or a copy
  of, the image that its second lookup finds.
\<close>

lemma place_image_free:
  "d dst = None \<Longrightarrow> place_image e d src dst = Inr d' \<Longrightarrow>
     d' dst = Some (Link src) \<or> d' dst = Some (Copy src)"
  by (auto simp: place_image_def exists_in_def split: if_splits)

lemma pac_places_pair_image:
  assumes "success (process_pair e st (img, cap)) = success st + 1"
    and "pac_out st (name img) = None"
    and "with_suffix (name img) (str ''.txt'') \<noteq> name img"
  shows "pac_out (process_pair e st (img, cap)) (name img) = Some (Link img)
     \<or> pac_out (process_pair e st (img, cap)) (name img) = Some (Copy img)"
proof -
  from process_pair_success [OF assms(1)] obtain raw d where
    r: "place_image e (pac_out st) img (name img) = Inr d"
      "process_pair e st (img, cap) =
          st\<lparr>pac_results := pac_results st @
                 [[(str ''image_id'', name img), (str ''caption'', pac_clean_caption raw)]],
             success := success st + 1,
             pac_out := d(with_suffix (name img) (str ''.txt'') \<mapsto> Text (pac_clean_caption raw))\<rparr>"
    by blast
  have "d (name img) = Some (Link img) \<or> d (name img) = Some (Copy img)"
    using place_image_free [OF assms(2) r(1)] .
  with r(2) assms(3) show ?thesis by simp
qed

lemma cpc_places_src_image:
  assumes "cpc_copy_row e cs r = Inr cs'" "saved_count cs' = saved_count cs + 1"
    and "lookup r (str ''image_id'') = Inr image_id"
    and "out cs image_id = None"
    and "with_suffix image_id (str ''.txt'') \<noteq> image_id"
  shows "\<exists>src. src_image e image_id = Inr src
     \<and> (out cs' image_id = Some (Link (Path IMAGE_DIR src))
        \<or> out cs' image_id = Some (Copy (Path IMAGE_DIR src)))"
proof -
  from cpc_copy_row_success [OF assms(1,2)] assms(3) obtain caption src d where
    r: "src_image e image_id = Inr src"
      "place_image e (out cs) (Path IMAGE_DIR src) image_id = Inr d"
      "cs' = \<lparr>out = d(with_suffix image_id (str ''.txt'') \<mapsto> Text caption),
               saved_count = saved_count cs + 1\<rparr>"
    by auto
  have "d image_id = Some (Link (Path IMAGE_DIR src))
      \<or> d image_id = Some (Copy (Path IMAGE_DIR src))"
    using place_image_free [OF assms(4) r(2)] .
  with r(1,3) assms(5) show ?thesis by simp
qed

text \<open>
  C6. For every successfully processed pair, the output training directory afterwards
  contains the image file under its original filename and a \<open>.txt\<close> file with the
  same stem whose content is the cleaned caption. The first loop of
  \<open>clean_and_prepare_captions\<close> finds the image of a caption under the caption's
  stem, as \<open>process_all_captions\<close> does, but its copying loop looks the source up
  again under the part of \<open>image_id\<close> before its first dot. With the images
  \<open>x.jpg\<close> and \<open>x.y.jpg\<close> and the caption \<open>x.y.txt\<close>, the pair matched is
  \<open>x.y.jpg\<close> with that caption, and what the empty output directory then holds under
  the name \<open>x.y.jpg\<close>, next to \<open>x.y.txt\<close>, is a symlink to \<open>x.jpg\<close>.
\<close>

theorem copied_image_is_another:
  "cpc_read_loop env1 [xy_txt]
     = Inr \<lparr>results = [row_xy], matched_count = 1, skipped_count = 0\<rparr>
   \<and> cpc_copy_loop env1 copy0 [row_xy]
       = Inr \<lparr>out = [str ''x.y.jpg'' \<mapsto> Link (Path (str ''../data/images'') (str ''x.jpg'')),
                     str ''x.y.txt'' \<mapsto> Text (str ''A smiling man.'')],
              saved_count = 1\<rparr>"
  by (simp add: eval_run)

text \<open>
  C7. Uniqueness of \<open>image_id\<close> is not enforced: when two records of one run carry the
  same \<open>image_id\<close>, processing the second record does not fail or raise; the image
  file in the output directory is left unchanged, the destination existing, while the
  \<open>.txt\<close> file of that stem is overwritten with the caption of the later record.
  \<open>process_all_captions\<close> collects the caption files of the caption directory and of
  its subdirectories. With the image \<open>a.jpg\<close> in \<open>../data/images\<close> and the captions
  \<open>a.txt\<close> and \<open>sub/a.txt\<close>, both captions are matched with the image. The first pair
  is processed: the symlink \<open>a.jpg\<close> is made with the relative path of the image as
  its target, and \<open>a.txt\<close> is written. The link does not resolve from the output
  directory, so for the second pair \<open>exists()\<close> is false, the symlink and the copy
  through the link raise, the pair is counted as failed, and \<open>a.txt\<close> keeps the
  caption of the first pair.
\<close>

theorem duplicate_image_id_fails:
  "find_image_files (Some [a_jpg]) = [a_jpg]
   \<and> match_images_captions [a_txt, sub_a_txt] (find_image_files (Some [a_jpg]))
       = [(a_jpg, a_txt), (a_jpg, sub_a_txt)]
   \<and> process_pair env0 (pac_init Map.empty) (a_jpg, a_txt)
       = \<lparr>pac_results = [[(str ''image_id'', str ''a.jpg''), (str ''caption'', str ''She is young'')]],
          success = 1, failed = 0,
          pac_out = [str ''a.jpg'' \<mapsto> Link (Path (str ''../data/images'') (str ''a.jpg'')),
                     str ''a.txt'' \<mapsto> Text (str ''She is young'')]\<rparr>
   \<and> read_caption_file env0 sub_a_txt = Some (str ''He has a hat'')
   \<and> pac_loop env0 (pac_init Map.empty) [(a_jpg, a_txt), (a_jpg, sub_a_txt)]
       = \<lparr>pac_results = [[(str ''image_id'', str ''a.jpg''), (str ''caption'', str ''She is young'')]],
          success = 1, failed = 1,
          pac_out = [str ''a.jpg'' \<mapsto> Link (Path (str ''../data/images'') (str ''a.jpg'')),
                     str ''a.txt'' \<mapsto> Text (str ''She is young'')]\<rparr>"
  by (simp add: eval_run find_image_files_def image_globs_def endswith_def)

section \<open>Counters of the loops\<close>

lemma cpc_step_counts:
  assumes "cpc_step e st f = Inr st'"
  shows "(matched_count st' = matched_count st + 1
      \<and> skipped_count st' = skipped_count st
      \<and> length (results st') = length (results st) + 1)
   \<or> (matched_count st' = matched_count st
      \<and> skipped_count st' = skipped_count st + 1
      \<and> results st' = results st)"
  using cpc_step_cases [OF assms] by auto

lemma cpc_loop_counts:
  "cpc_loop e st fs = Inr st' \<Longrightarrow>
     matched_count st' + skipped_count st' = matched_count st + skipped_count st + length fs
     \<and> length (results st') + matched_count st = length (results st) + matched_count st'"
proof (induction fs arbitrary: st)
  case Nil
  then show ?case by simp
next
  case (Cons f fs)
  from Cons.prems obtain st1 where
    s: "cpc_step e st f = Inr st1" "cpc_loop e st1 fs = Inr st'"
    by (cases "cpc_step e st f") simp_all
  show ?case
    using Cons.IH [OF s(2)] cpc_step_counts [OF s(1)] by auto
qed

text \<open>
  A step of the first loop of \<open>clean_and_prepare_captions\<close> raises exactly when the
  lookup of the image does, and the loop comes to its end when no lookup raises. A
  caption file whose image is found and which cannot be read as UTF-8, or which holds
  fewer than 5 characters, is counted as skipped.
\<close>

lemma cpc_step_raises:
  "cpc_step e st f = Inl x
     \<longleftrightarrow> first_existing (image_exists e) (stem (name f)) image_extensions = Inl x"
proof (cases "first_existing (image_exists e) (stem (name f)) image_extensions")
  case (Inl y)
  then show ?thesis by (simp add: cpc_step_def)
next
  case (Inr found)
  then show ?thesis
    by (cases found; cases "read_as e (str ''utf-8'') f") (simp_all add: cpc_step_def Let_def)
qed

lemma cpc_loop_returns:
  "\<forall>f \<in> set fs. returned (first_existing (image_exists e) (stem (name f)) image_extensions)
     \<Longrightarrow> \<exists>st'. cpc_loop e st fs = Inr st'"
proof (induction fs arbitrary: st)
  case Nil
  show ?case by simp
next
  case (Cons f fs)
  from Cons.prems have
    "returned (first_existing (image_exists e) (stem (name f)) image_extensions)"
    by simp
  then have "\<forall>x. cpc_step e st f \<noteq> Inl x"
    using cpc_step_raises [of e st f] by (auto simp: returned_def)
  then obtain st1 where s: "cpc_step e st f = Inr st1"
    by (cases "cpc_step e st f") auto
  from Cons.prems have
    "\<forall>f \<in> set fs. returned (first_existing (image_exists e) (stem (name f)) image_extensions)"
    by simp
  from Cons.IH [OF this, of st1] s show ?case by simp
qed

lemma cpc_loop_raises:
  "cpc_loop e st (fs @ f # rest) = Inl x" if "cpc_loop e st fs = Inr st1"
    and "first_existing (image_exists e) (stem (name f)) image_extensions = Inl x"
  using that
proof (induction fs arbitrary: st)
  case Nil
  then show ?case using cpc_step_raises [of e st f x] by simp
next
  case (Cons g fs)
  from Cons.prems(1) obtain st2 where
    s: "cpc_step e st g = Inr st2" "cpc_loop e st2 fs = Inr st1"
    by (cases "cpc_step e st g") simp_all
  from Cons.IH [OF s(2) Cons.prems(2)] s(1) show ?case by simp
qed

lemma cpc_unreadable_skipped:
  "first_existing (image_exists e) (stem (name f)) image_extensions = Inr (Some image_filename)
     \<Longrightarrow> read_as e (str ''utf-8'') f = None
     \<Longrightarrow> cpc_step e st f = Inr (st\<lparr>skipped_count := skipped_count st + 1\<rparr>)"
  by (simp add: cpc_step_def)

lemma cpc_short_skipped:
  "first_existing (image_exists e) (stem (name f)) image_extensions = Inr (Some image_filename)
     \<Longrightarrow> read_as e (str ''utf-8'') f = Some content \<Longrightarrow> length (strip content) < 5
     \<Longrightarrow> cpc_step e st f = Inr (st\<lparr>skipped_count := skipped_count st + 1\<rparr>)"
  by (simp add: cpc_step_def Let_def)

lemma process_pair_counts:
  "(success (process_pair e st p) = success st + 1
      \<and> failed (process_pair e st p) = failed st
      \<and> length (pac_results (process_pair e st p)) = length (pac_results st) + 1)
   \<or> (success (process_pair e st p) = success st
      \<and> failed (process_pair e st p) = failed st + 1
      \<and> pac_results (process_pair e st p) = pac_results st)"
  by (simp add: process_pair_def Let_def split: option.splits sum.splits prod.splits)

lemma pac_foldl_counts:
  "success (foldl (process_pair e) st ms) + failed (foldl (process_pair e) st ms)
     = success st + failed st + length ms
   \<and> length (pac_results (foldl (process_pair e) st ms)) + success st
     = length (pac_results st) + success (foldl (process_pair e) st ms)"
proof (induction ms arbitrary: st)
  case Nil
  then show ?case by simp
next
  case (Cons p ms)
  show ?case
    using Cons.IH [of "process_pair e st p"] process_pair_counts [of e st p] by auto
qed

lemma process_pair_unreadable_failed:
  "read_caption_file e cap = None \<or> read_caption_file e cap = Some [] \<Longrightarrow>
     process_pair e st (img, cap) = st\<lparr>failed := failed st + 1\<rparr>"
  by (auto simp: process_pair_def)

text \<open>
  The loop of \<open>process_all_captions\<close> is total and counts each pair once. The first
  loop of \<open>clean_and_prepare_captions\<close> counts each caption file once when it comes to
  its end, which it does when no lookup of an image raises. The counts are printed
  behind the loop, the skipped count of \<open>clean_and_prepare_captions\<close> when it is
  positive.
\<close>

lemma loop_counters:
  "(cpc_read_loop e caption_files = Inr cst \<longrightarrow>
      matched_count cst + skipped_count cst = length caption_files
      \<and> length (results cst) = matched_count cst
      \<and> (str ''Matched'', matched_count cst) \<in> set (cpc_report cst)
      \<and> (0 < skipped_count cst \<longrightarrow> (str ''Skipped'', skipped_count cst) \<in> set (cpc_report cst)))
   \<and> ((\<forall>f \<in> set caption_files.
          returned (first_existing (image_exists e) (stem (name f)) image_extensions))
        \<longrightarrow> (\<exists>cst. cpc_read_loop e caption_files = Inr cst))
   \<and> success (pac_loop e (pac_init d) matches) + failed (pac_loop e (pac_init d) matches)
     = length matches
   \<and> length (pac_results (pac_loop e (pac_init d) matches)) = success (pac_loop e (pac_init d) matches)
   \<and> (str ''Successfully processed'', success (pac_loop e (pac_init d) matches))
       \<in> set (pac_report (pac_loop e (pac_init d) matches))
   \<and> (str ''Failed'', failed (pac_loop e (pac_init d) matches))
       \<in> set (pac_report (pac_loop e (pac_init d) matches))"
proof -
  have "cpc_read_loop e caption_files = Inr cst \<longrightarrow>
      matched_count cst + skipped_count cst = length caption_files
      \<and> length (results cst) = matched_count cst"
    using cpc_loop_counts [of e cpc_init caption_files cst]
    by (simp add: cpc_read_loop_def cpc_init_def)
  moreover have "(\<forall>f \<in> set caption_files.
          returned (first_existing (image_exists e) (stem (name f)) image_extensions))
        \<longrightarrow> (\<exists>cst. cpc_read_loop e caption_files = Inr cst)"
    using cpc_loop_returns [of caption_files e cpc_init] by (simp add: cpc_read_loop_def)
  moreover have "success (pac_loop e (pac_init d) matches)
        + failed (pac_loop e (pac_init d) matches) = length matches
      \<and> length (pac_results (pac_loop e (pac_init d) matches))
        = success (pac_loop e (pac_init d) matches)"
    using pac_foldl_counts [of e "pac_init d" matches]
    by (simp add: pac_loop_def pac_init_def)
  ultimately show ?thesis
    by (simp add: cpc_report_def pac_report_def)
qed

lemma rfind_replicate: "c \<noteq> x \<Longrightarrow> rfind x (replicate n c) = None"
  by (induction n) simp_all

lemma stem_long_txt: "stem (name long_txt) = replicate 251 (of_char CHR ''a'')"
proof -
  have "rfind dot (replicate 251 (of_char CHR ''a'') @ str ''.txt'') = Some 251"
    by (simp add: rfind_append rfind_txt)
  moreover have "length (str ''.txt'') = 4" by (simp add: str_def)
  ultimately show ?thesis by (simp add: stem_def long_txt_def)
qed

lemma exists_long_jpg:
  "image_exists env_long (replicate 251 (of_char CHR ''a'') @ str ''.jpg'') = Inr False"
proof -
  let ?nm = "replicate 251 (of_char CHR ''a'') @ str ''.jpg''"
  have l: "length ?nm = 255" by (simp add: str_def)
  have n: "length ?nm \<noteq> 5" by (simp add: str_def)
  have "?nm \<noteq> nm" if "length nm = 5" for nm
  proof
    assume "?nm = nm"
    then have "length ?nm = length nm" by (rule arg_cong)
    with that n show False by simp
  qed
  moreover have "length (str ''a.jpg'') = 5" "length (str ''a.png'') = 5"
    by (simp_all add: str_def)
  ultimately have "?nm \<noteq> str ''a.jpg''" "?nm \<noteq> str ''a.png''" by blast+
  with l show ?thesis by (simp add: env_long_def env0_def)
qed

lemma exists_long_jpeg:
  "image_exists env_long (replicate 251 (of_char CHR ''a'') @ str ''.jpeg'') = Inl OSError"
proof -
  have "length (replicate 251 (of_char CHR ''a'') @ str ''.jpeg'') = 256" by (simp add: str_def)
  then show ?thesis by (simp add: env_long_def)
qed

lemma lookup_long_txt:
  "first_existing (image_exists env_long) (stem (name long_txt)) image_extensions = Inl OSError"
  using exists_long_jpg exists_long_jpeg by (simp add: stem_long_txt image_extensions_def)

lemma cpc_step_env_long:
  "cpc_step env_long cpc_init a_txt
     = Inr \<lparr>results = [[(str ''image_id'', str ''a.jpg''),
                        (str ''original_caption'', str ''She is young''),
                        (str ''cleaned_caption'', str ''Young.'')]],
            matched_count = 1, skipped_count = 0\<rparr>"
  by (simp add: eval_run env_long_def)

lemma cpc_step_env_long_b:
  "cpc_step env_long st b_txt = Inr (st\<lparr>skipped_count := skipped_count st + 1\<rparr>)"
  by (simp add: eval_run env_long_def)

text \<open>
  C5. Per-file error handling is catch-and-skip: every caption file increments exactly
  one of the counters, a failing file never ends the run, and the counters are reported
  at the end. \<open>process_all_captions\<close> has the whole body of its loop inside the
  \<open>try\<close>. In \<open>clean_and_prepare_captions\<close> the lookup of the image stands before the
  \<open>try\<close>. On a file system whose names have at most 255 characters, the caption file
  \<open>long_txt\<close>, whose name has 255 characters, is looked up under its stem of 251
  characters: \<open>exists()\<close> returns false for the name with \<open>.jpg\<close>, which has 255
  characters, and raises \<open>OSError\<close> for the name with \<open>.jpeg\<close>, which has 256. The
  step raises, and the run of the caption files \<open>a.txt\<close>, \<open>long_txt\<close> and \<open>b.txt\<close>
  ends with that exception: no counter is incremented for \<open>long_txt\<close>, \<open>b.txt\<close> is
  not processed, and nothing is reported. Without \<open>long_txt\<close> the run comes to its end
  with one file matched and one skipped.
\<close>

theorem exists_raises_ends_run:
  "length (name long_txt) = 255
   \<and> image_exists env_long (stem (name long_txt) @ str ''.jpg'') = Inr False
   \<and> image_exists env_long (stem (name long_txt) @ str ''.jpeg'') = Inl OSError
   \<and> cpc_step env_long st long_txt = Inl OSError
   \<and> cpc_read_loop env_long [a_txt, long_txt, b_txt] = Inl OSError
   \<and> cpc_csv_header (cpc_read_loop env_long [a_txt, long_txt, b_txt]) = None
   \<and> cpc_read_loop env_long [a_txt, b_txt]
       = Inr \<lparr>results = [[(str ''image_id'', str ''a.jpg''),
                          (str ''original_caption'', str ''She is young''),
                          (str ''cleaned_caption'', str ''Young.'')]],
              matched_count = 1, skipped_count = 1\<rparr>"
proof -
  have l: "length (name long_txt) = 255" by (simp add: long_txt_def str_def)
  have s: "cpc_step env_long st long_txt = Inl OSError" for st
    using lookup_long_txt cpc_step_raises [of env_long st long_txt OSError] by simp
  have r: "cpc_read_loop env_long [a_txt, long_txt, b_txt] = Inl OSError"
    using s by (simp add: cpc_read_loop_def cpc_step_env_long)
  have t: "cpc_read_loop env_long [a_txt, b_txt]
       = Inr \<lparr>results = [[(str ''image_id'', str ''a.jpg''),
                          (str ''original_caption'', str ''She is young''),
                          (str ''cleaned_caption'', str ''Young.'')]],
              matched_count = 1, skipped_count = 1\<rparr>"
    by (simp add: cpc_read_loop_def cpc_step_env_long cpc_step_env_long_b)
  from l s r t show ?thesis
    using exists_long_jpg exists_long_jpeg by (simp add: stem_long_txt cpc_csv_header_def)
qed

section \<open>Columns of the CSV files\<close>
















section \<open>Repeated attempts\<close>


















subsection \<open>The lookup of an image\<close>









subsection \<open>The reading of a caption file\<close>












subsection \<open>The placing of an image and the writing of the caption\<close>






subsection \<open>The steps\<close>














section \<open>Properties of the caption generator\<close>

text \<open>
  C9. The caption built by \<open>make_criminal_style_caption\<close> is a function of the
  attributes alone: two calls with the same attributes list return the same string
  whatever the two base captions are.
\<close>

theorem make_criminal_style_caption_ignores_base:
  "make_criminal_style_caption base1 attributes = make_criminal_style_caption base2 attributes"
  by (simp add: make_criminal_style_caption_def)

theorem make_criminal_style_caption_ignores_base_witness:
  "make_criminal_style_caption (str ''a man in a suit'') [str ''Male'', str ''Bald'']
     = make_criminal_style_caption [] [str ''Male'', str ''Bald'']
   \<and> make_criminal_style_caption [] [str ''Male'', str ''Bald'']
     = str ''A male suspect with bald head, no beard, and a neutral expression.''"
proof -
  have "make_criminal_style_caption [] [str ''Male'', str ''Bald'']
     = str ''A male suspect with bald head, no beard, and a neutral expression.''"
    by code_simp
  then show ?thesis
    using make_criminal_style_caption_ignores_base
      [of "str ''a man in a suit''" "[str ''Male'', str ''Bald'']" "[]"]
    by simp
qed

end
